theory Spec2Isabelle
  imports Complex_Main "HOL-Library.Sublist" "HOL-Library.Word"
begin

section \<open>UPager license server: a shallow embedding of \<open>license_server.py\<close>\<close>

text \<open>
  The three SQLite tables are lists of rows in rowid order (rows are only ever appended, so
  the position of a row is its \<open>id\<close>).  \<open>fetchone()\<close> on a query of one table without
  \<open>ORDER BY\<close> is the first matching row in that order; the join of \<open>/verify\<close> is treated
  with the function.  A timestamp is the number of microseconds on the UTC
  clock; the text that \<open>isoformat()\<close> writes and \<open>fromisoformat()\<close> reads back is not
  modelled, the stored value is the timestamp itself.  Strings are byte strings; the case
  mappings below act on ASCII letters, as SQLite's \<open>UPPER\<close> does.  A column name that two
  tables share carries a prefix in the second table (\<open>act_\<close>, \<open>log_\<close>), and the column
  \<open>type\<close> of the licenses is \<open>license_type\<close>.

  \<open>max_activations\<close> is whatever number the caller of \<open>/admin/create\<close> sends: the value is
  not validated, SQLite keeps a number with a fraction as it is, and Python compares the
  integer counter with it exactly.  It is a rational number here (every JSON integer and
  every finite float is one).  An integer that does not fit in 64 bits makes the \<open>INSERT\<close>
  raise; the model stores it, which only adds databases.  A limit that is not a finite
  number (a string, \<open>null\<close>, \<open>Infinity\<close>) is outside the model.
\<close>

subsection \<open>Data model\<close>

type_synonym timestamp = int
type_synonym byte = "8 word"

record license =
  license_key :: string
  email :: string
  license_type :: string
  tier :: string
  billing_type :: string
  status :: string
  created_at :: timestamp
  activated_at :: "timestamp option"
  expires_at :: "timestamp option"
  maintenance_expires_at :: "timestamp option"
  max_activations :: rat
  current_activations :: int

record activation =
  act_license_key :: string
  machine_id :: string
  ip_address :: "string option"
  act_activated_at :: timestamp
  last_verified :: "timestamp option"
  act_status :: string

record log_entry =
  log_license_key :: string
  log_machine_id :: string
  log_ip_address :: "string option"
  log_timestamp :: timestamp
  log_result :: string
  log_message :: string

record db =
  licenses :: "license list"
  activations :: "activation list"
  verification_log :: "log_entry list"

text \<open>\<open>init_db\<close>: the three tables, empty.\<close>

definition init_db :: db where
  "init_db = \<lparr>licenses = [], activations = [], verification_log = []\<rparr>"

text \<open>
  The failures of the handlers, named as in the error taxonomy; the handler's JSON error text
  and HTTP status are: \<open>ValidationError\<close> "Missing required fields" 400, \<open>InvalidKey\<close>
  "Invalid license key" (404 from activate, 200 from verify), \<open>LicenseNotActive st\<close>
  "License is st", \<open>EmailMismatch\<close> "Email does not match license" 403,
  \<open>ActivationLimitReached n\<close> "Maximum activations (n) reached" 403, \<open>NotActivatedHere\<close>
  "License not activated on this machine", \<open>Expired\<close> "License has expired",
  \<open>NoActiveActivation\<close> "No active activation found" 404.
\<close>

datatype error =
    ValidationError
  | InvalidKey
  | LicenseNotActive string
  | EmailMismatch
  | ActivationLimitReached rat
  | NotActivatedHere
  | Expired
  | NoActiveActivation

text \<open>The \<open>license\<close> object of a successful activate, and the body of a valid verify.\<close>

record license_info =
  info_type :: string
  info_tier :: string
  info_billing_type :: string
  info_expires :: "timestamp option"
  info_maintenance_expires :: "timestamp option"

subsection \<open>Strings\<close>

text \<open>SQLite's \<open>UPPER\<close>: ASCII \<open>a..z\<close> to \<open>A..Z\<close>, every other byte unchanged.\<close>

definition upper_char :: "char \<Rightarrow> char" where
  "upper_char c =
     (let n = (of_char c :: nat) in if 97 \<le> n \<and> n \<le> 122 then char_of (n - 32) else c)"

definition UPPER :: "string \<Rightarrow> string" where
  "UPPER s = map upper_char s"

text \<open>Python's \<open>str.lower()\<close> and \<open>str.upper()\<close>, on ASCII.\<close>

definition lower_char :: "char \<Rightarrow> char" where
  "lower_char c =
     (let n = (of_char c :: nat) in if 65 \<le> n \<and> n \<le> 90 then char_of (n + 32) else c)"

definition lower :: "string \<Rightarrow> string" where
  "lower s = map lower_char s"

definition upper :: "string \<Rightarrow> string" where
  "upper s = map upper_char s"

text \<open>Python's \<open>str.strip()\<close>: ASCII whitespace is \<open>\t \n \v \f \r\<close>, \<open>0x1c..0x1f\<close> and space.\<close>

definition is_space :: "char \<Rightarrow> bool" where
  "is_space c =
     (let n = (of_char c :: nat) in (9 \<le> n \<and> n \<le> 13) \<or> (28 \<le> n \<and> n \<le> 32))"

definition strip :: "string \<Rightarrow> string" where
  "strip s = rev (dropWhile is_space (rev (dropWhile is_space s)))"

text \<open>\<open>s.startswith(p)\<close> and \<open>sub in s\<close>.\<close>

definition startswith :: "string \<Rightarrow> string \<Rightarrow> bool" where
  "startswith s p = (take (length p) s = p)"

fun contains :: "string \<Rightarrow> string \<Rightarrow> bool" where
  "contains [] sub = (sub = [])"
| "contains (c # cs) sub = (startswith (c # cs) sub \<or> contains cs sub)"

text \<open>\<open>sep.join(parts)\<close>.\<close>

fun join :: "string \<Rightarrow> string list \<Rightarrow> string" where
  "join sep [] = []"
| "join sep [p] = p"
| "join sep (p # q # ps) = p @ sep @ join sep (q # ps)"

subsection \<open>Key generation\<close>

text \<open>
  \<open>secrets.token_hex(n)\<close> reads \<open>n\<close> bytes from the operating system's random source and
  writes each as two lowercase hexadecimal digits.  The source is the parameter \<open>rnd\<close>, the
  bytes it will deliver next.
\<close>

definition hexdigits :: string where
  "hexdigits = ''0123456789abcdef''"

definition hex_of_byte :: "byte \<Rightarrow> string" where
  "hex_of_byte b = [hexdigits ! (unat b div 16), hexdigits ! (unat b mod 16)]"

definition token_hex :: "nat \<Rightarrow> byte list \<Rightarrow> string" where
  "token_hex n rnd = concat (map hex_of_byte (take n rnd))"

definition generate_license_key :: "string \<Rightarrow> byte list \<Rightarrow> string" where
  "generate_license_key tier_arg rnd =
     (let random_hex = upper (token_hex 8 rnd);
          parts = map (\<lambda>i. take 4 (drop i random_hex)) [0, 4, 8, 12]
      in ''UPAGER-'' @ join ''-'' parts)"

subsection \<open>create\<close>

definition type_of_tier :: "string \<Rightarrow> string" where
  "type_of_tier t =
     (if startswith t ''pro'' then ''pro''
      else if startswith t ''enterprise'' then ''enterprise''
      else ''free'')"

definition billing_of_tier :: "string \<Rightarrow> string" where
  "billing_of_tier t = (if contains t ''lifetime'' then ''one-time'' else ''annual'')"

text \<open>
  \<open>create_license\<close>: the \<open>INSERT\<close> raises \<open>IntegrityError\<close> when the key is already stored
  (\<open>license_key TEXT UNIQUE\<close>, compared exactly); the function then returns \<open>None\<close> and
  nothing is written.  \<open>current_activations\<close> takes the column default 0, the three
  timestamps not named by the \<open>INSERT\<close> are \<open>NULL\<close>.
\<close>

definition create_license ::
  "db \<Rightarrow> string \<Rightarrow> string \<Rightarrow> rat \<Rightarrow> byte list \<Rightarrow> timestamp \<Rightarrow> string option \<times> db" where
  "create_license s email_arg tier_arg max_act rnd now =
     (let key = generate_license_key tier_arg rnd;
          ltype = type_of_tier tier_arg;
          billing = billing_of_tier tier_arg
      in if key \<in> set (map license_key (licenses s)) then (None, s)
         else (Some key,
               s\<lparr>licenses := licenses s @
                  [\<lparr>license_key = key, email = email_arg, license_type = ltype,
                    tier = tier_arg, billing_type = billing, status = ''active'',
                    created_at = now, activated_at = None, expires_at = None,
                    maintenance_expires_at = None, max_activations = max_act,
                    current_activations = 0\<rparr>]\<rparr>))"

subsection \<open>activate\<close>

text \<open>\<open>timedelta(days=365)\<close>, in microseconds.\<close>

definition days365 :: int where
  "days365 = 365 * 86400 * 1000000"

text \<open>\<open>SELECT ... FROM licenses WHERE UPPER(license_key) = UPPER(?)\<close>, \<open>fetchone()\<close>.\<close>

definition find_license :: "db \<Rightarrow> string \<Rightarrow> license option" where
  "find_license s key = find (\<lambda>l. UPPER (license_key l) = UPPER key) (licenses s)"

text \<open>\<open>SELECT status FROM activations WHERE license_key = ? AND machine_id = ?\<close>.\<close>

definition find_activation :: "db \<Rightarrow> string \<Rightarrow> string \<Rightarrow> activation option" where
  "find_activation s key mid =
     find (\<lambda>a. act_license_key a = key \<and> machine_id a = mid) (activations s)"

text \<open>\<open>UPDATE licenses SET ... WHERE license_key = ?\<close>: the key is compared exactly.\<close>

definition update_license :: "string \<Rightarrow> (license \<Rightarrow> license) \<Rightarrow> db \<Rightarrow> db" where
  "update_license key f s =
     s\<lparr>licenses := map (\<lambda>l. if license_key l = key then f l else l) (licenses s)\<rparr>"

text \<open>\<open>UPDATE activations SET ... WHERE license_key = ? AND machine_id = ?\<close>.\<close>

definition update_activation :: "string \<Rightarrow> string \<Rightarrow> (activation \<Rightarrow> activation) \<Rightarrow> db \<Rightarrow> db" where
  "update_activation key mid f s =
     s\<lparr>activations :=
         map (\<lambda>a. if act_license_key a = key \<and> machine_id a = mid then f a else a)
           (activations s)\<rparr>"

text \<open>
  The branch of \<open>/activate\<close> for a machine that already has a row: \<open>last_verified\<close> and
  \<open>ip_address\<close> of the rows with this exact key and machine are rewritten.
\<close>

definition reactivate :: "string \<Rightarrow> string \<Rightarrow> string option \<Rightarrow> timestamp \<Rightarrow> db \<Rightarrow> db" where
  "reactivate key mid ip t s =
     update_activation key mid (\<lambda>a. a\<lparr>last_verified := Some t, ip_address := ip\<rparr>) s"

text \<open>
  The branch for a new machine, after the limit test: the \<open>INSERT\<close> into the activations,
  then the \<open>UPDATE\<close> of the license that adds one to the counter and sets \<open>activated_at\<close>
  by \<open>COALESCE\<close>.  \<open>clk 0\<close>, \<open>clk 1\<close> and \<open>clk 2\<close> are its three readings of the clock.
\<close>

definition new_activation ::
  "string \<Rightarrow> string \<Rightarrow> string option \<Rightarrow> (nat \<Rightarrow> timestamp) \<Rightarrow> db \<Rightarrow> db" where
  "new_activation key mid ip clk s =
     update_license key
       (\<lambda>r. r\<lparr>current_activations := current_activations r + 1,
              activated_at := (case activated_at r of None \<Rightarrow> Some (clk 2) | Some t \<Rightarrow> Some t)\<rparr>)
       (s\<lparr>activations := activations s @
            [\<lparr>act_license_key = key, machine_id = mid, ip_address = ip,
              act_activated_at = clk 0, last_verified = Some (clk 1),
              act_status = ''active''\<rparr>]\<rparr>)"

text \<open>
  The end of \<open>/activate\<close>, common to both branches: the expiry dates from the clock reading
  \<open>now\<close> and the billing type read at the start of the request, the \<open>UPDATE\<close> of
  \<open>expires_at\<close> when the license had none, and the response.
\<close>

definition finish_activate :: "license \<Rightarrow> string \<Rightarrow> timestamp \<Rightarrow> db \<Rightarrow> (error + license_info) \<times> db" where
  "finish_activate l key now s1 =
     (let license_expires =
            (if billing_type l = ''one-time'' then None else Some (now + days365));
          maintenance_expires =
            (if billing_type l = ''one-time'' then Some (now + days365) else license_expires);
          s2 = (if expires_at l = None \<and> license_expires \<noteq> None
                then update_license key (\<lambda>r. r\<lparr>expires_at := license_expires\<rparr>) s1
                else s1)
      in (Inr \<lparr>info_type = license_type l, info_tier = tier l,
               info_billing_type = billing_type l, info_expires = license_expires,
               info_maintenance_expires = maintenance_expires\<rparr>,
          s2))"

text \<open>
  The handler of \<open>/activate\<close>.  \<open>clk i\<close> is the value of the \<open>i\<close>-th call of
  \<open>datetime.utcnow()\<close> made while the request is served (one in the branch for a known
  machine, three in the branch for a new one, then \<open>now\<close>); \<open>ip\<close> is
  \<open>data.get('ip', request.remote_addr)\<close>.  Every failure returns before the first write, so
  the database is returned unchanged with it.
\<close>

definition activate ::
  "db \<Rightarrow> string \<Rightarrow> string \<Rightarrow> string \<Rightarrow> string option \<Rightarrow> (nat \<Rightarrow> timestamp)
     \<Rightarrow> (error + license_info) \<times> db" where
  "activate s key_arg email_arg mid_arg ip clk =
     (let key = strip key_arg; em = strip email_arg; mid = strip mid_arg
      in if key = [] \<or> em = [] \<or> mid = [] then (Inl ValidationError, s)
         else case find_license s key of
           None \<Rightarrow> (Inl InvalidKey, s)
         | Some l \<Rightarrow>
             if status l \<noteq> ''active'' then (Inl (LicenseNotActive (status l)), s)
             else if lower em \<noteq> lower (email l) then (Inl EmailMismatch, s)
             else
               (case find_activation s key mid of
                  Some existing \<Rightarrow>
                    finish_activate l key (clk 1) (reactivate key mid ip (clk 0) s)
                | None \<Rightarrow>
                    if of_int (current_activations l) \<ge> max_activations l
                    then (Inl (ActivationLimitReached (max_activations l)), s)
                    else finish_activate l key (clk 3) (new_activation key mid ip clk s)))"

subsection \<open>verify\<close>

text \<open>
  The \<open>LEFT JOIN\<close> of the license found for the key with the activations of this machine
  whose key is the license's key up to case.  The query has no \<open>ORDER BY\<close>, and the order in
  which SQLite returns the matching rows depends on the plan it chooses (with an automatic
  index on \<open>machine_id\<close> it is not the rowid order).  So which of the matching rows
  \<open>fetchone()\<close> returns is an input of the model: the number \<open>pick\<close> selects one of them,
  and every choice is some \<open>pick\<close>.  Without a matching row the activation columns are
  \<open>NULL\<close>.
\<close>

definition join_rows :: "db \<Rightarrow> license \<Rightarrow> string \<Rightarrow> activation list" where
  "join_rows s l mid =
     filter (\<lambda>a. UPPER (license_key l) = UPPER (act_license_key a) \<and> machine_id a = mid)
       (activations s)"

definition join_activation :: "nat \<Rightarrow> db \<Rightarrow> license \<Rightarrow> string \<Rightarrow> activation option" where
  "join_activation pick s l mid =
     (case join_rows s l mid of
        [] \<Rightarrow> None
      | r # rs \<Rightarrow> Some ((r # rs) ! (pick mod length (r # rs))))"

definition append_log :: "log_entry \<Rightarrow> db \<Rightarrow> db" where
  "append_log e s = s\<lparr>verification_log := verification_log s @ [e]\<rparr>"

text \<open>
  The expiry test of \<open>/verify\<close>; the clock is read for it only when the license is annual
  and has an expiry, so \<open>clock_offset\<close> is the number of readings it has used.
\<close>

definition checks_expiry :: "license \<Rightarrow> bool" where
  "checks_expiry l = (billing_type l = ''annual'' \<and> expires_at l \<noteq> None)"

definition has_expired :: "license \<Rightarrow> timestamp \<Rightarrow> bool" where
  "has_expired l now = (case expires_at l of None \<Rightarrow> False | Some e \<Rightarrow> now > e)"

definition clock_offset :: "license \<Rightarrow> nat" where
  "clock_offset l = (if checks_expiry l then 1 else 0)"

text \<open>
  The handler of \<open>/verify\<close>.  \<open>Inr\<close> is the body with \<open>valid = True\<close>, \<open>Inl\<close> the one with
  \<open>valid = False\<close> and its error.  \<open>not activation_status\<close> holds for a missing row and for
  an empty status.  \<open>pick\<close> is the choice of the joined row, see \<open>join_activation\<close>.
\<close>

definition verify ::
  "db \<Rightarrow> string \<Rightarrow> string \<Rightarrow> nat \<Rightarrow> (nat \<Rightarrow> timestamp) \<Rightarrow> (error + license_info) \<times> db" where
  "verify s key_arg mid_arg pick clk =
     (let key = strip key_arg; mid = strip mid_arg
      in if key = [] \<or> mid = [] then (Inl ValidationError, s)
         else case find_license s key of
           None \<Rightarrow>
             (Inl InvalidKey,
              append_log \<lparr>log_license_key = key, log_machine_id = mid, log_ip_address = None,
                          log_timestamp = clk 0, log_result = ''failed'',
                          log_message = ''Invalid key''\<rparr> s)
         | Some l \<Rightarrow>
             if status l \<noteq> ''active'' then (Inl (LicenseNotActive (status l)), s)
             else
               (case join_activation pick s l mid of
                  None \<Rightarrow> (Inl NotActivatedHere, s)
                | Some a \<Rightarrow>
                    if act_status a = [] then (Inl NotActivatedHere, s)
                    else if checks_expiry l \<and> has_expired l (clk 0) then (Inl Expired, s)
                    else
                      let n = clock_offset l;
                          s1 = update_activation key mid
                                 (\<lambda>r. r\<lparr>last_verified := Some (clk n)\<rparr>) s;
                          s2 = append_log
                                 \<lparr>log_license_key = key, log_machine_id = mid,
                                  log_ip_address = None, log_timestamp = clk (n + 1),
                                  log_result = ''success'',
                                  log_message = ''Verified '' @ tier l\<rparr> s1;
                          maintenance_expires =
                            (if billing_type l = ''one-time''
                             then Some (act_activated_at a + days365)
                             else expires_at l)
                      in (Inr \<lparr>info_type = license_type l, info_tier = tier l,
                               info_billing_type = billing_type l,
                               info_expires = expires_at l,
                               info_maintenance_expires = maintenance_expires\<rparr>,
                          s2)))"

subsection \<open>deactivate\<close>

text \<open>The rows that \<open>/deactivate\<close> tests and rewrites: this machine, the key up to case.\<close>

definition same_pair :: "string \<Rightarrow> string \<Rightarrow> activation \<Rightarrow> bool" where
  "same_pair key mid a = (UPPER (act_license_key a) = UPPER key \<and> machine_id a = mid)"

text \<open>
  The handler of \<open>/deactivate\<close>: the test and the \<open>UPDATE\<close> of the activations compare the
  key up to case, the \<open>UPDATE\<close> of the license compares it exactly.
\<close>

definition deactivate :: "db \<Rightarrow> string \<Rightarrow> string \<Rightarrow> (error + unit) \<times> db" where
  "deactivate s key_arg mid_arg =
     (let key = strip key_arg; mid = strip mid_arg
      in if key = [] \<or> mid = [] then (Inl ValidationError, s)
         else if find (\<lambda>a. same_pair key mid a \<and> act_status a = ''active'') (activations s) = None
         then (Inl NoActiveActivation, s)
         else
           let s1 = s\<lparr>activations :=
                      map (\<lambda>a. if same_pair key mid a
                               then a\<lparr>act_status := ''deactivated''\<rparr> else a)
                        (activations s)\<rparr>;
               s2 = update_license key
                      (\<lambda>r. r\<lparr>current_activations := current_activations r - 1\<rparr>) s1
           in (Inr (), s2))"

subsection \<open>Sequences of calls\<close>

text \<open>
  A call of one of the four public operations with its arguments and what it reads from
  outside (the random bytes, the clock, the row the join returns first); \<open>run cs\<close> is the
  database after the calls \<open>cs\<close>, made one after the other on the empty database.
\<close>

datatype call =
    Create string string rat "byte list" timestamp
  | Activate string string string "string option" "nat \<Rightarrow> timestamp"
  | Verify string string nat "nat \<Rightarrow> timestamp"
  | Deactivate string string

fun step :: "db \<Rightarrow> call \<Rightarrow> db" where
  "step s (Create em t m rnd now) = snd (create_license s em t m rnd now)"
| "step s (Activate k em mid ip clk) = snd (activate s k em mid ip clk)"
| "step s (Verify k mid pick clk) = snd (verify s k mid pick clk)"
| "step s (Deactivate k mid) = snd (deactivate s k mid)"

definition run :: "call list \<Rightarrow> db" where
  "run cs = foldl step init_db cs"

subsection \<open>The derivation of type and billing type, in the words of the specification\<close>

text \<open>
  These two follow the specification, not the code: "starts with" is \<open>prefix\<close>, "contains"
  is \<open>sublist\<close> (a contiguous part).  They are compared with \<open>type_of_tier\<close> and
  \<open>billing_of_tier\<close> above, which follow \<open>create_license\<close>.
\<close>

definition spec_type :: "string \<Rightarrow> string" where
  "spec_type t =
     (if prefix ''pro'' t then ''pro''
      else if prefix ''enterprise'' t then ''enterprise''
      else ''free'')"

definition spec_billing_type :: "string \<Rightarrow> string" where
  "spec_billing_type t = (if sublist ''lifetime'' t then ''one-time'' else ''annual'')"

text \<open>The digits a key may show.\<close>

definition upper_hexdigits :: string where
  "upper_hexdigits = ''0123456789ABCDEF''"

subsection \<open>Properties of the database\<close>

text \<open>Every stored key is its own uppercase form, and no two licenses share a key.\<close>

definition keys_canonical :: "db \<Rightarrow> bool" where
  "keys_canonical s =
     ((\<forall>l \<in> set (licenses s). UPPER (license_key l) = license_key l)
      \<and> distinct (map license_key (licenses s)))"

text \<open>What holds of every license row that the operations have written.\<close>

definition licenses_sound :: "db \<Rightarrow> bool" where
  "licenses_sound s =
     (\<forall>l \<in> set (licenses s).
        status l = ''active''
        \<and> license_type l = type_of_tier (tier l)
        \<and> billing_type l = billing_of_tier (tier l)
        \<and> (billing_type l = ''one-time'' \<longrightarrow> expires_at l = None))"

text \<open>Every activation row is active or deactivated and belongs to a stored license.\<close>

definition activations_sound :: "db \<Rightarrow> bool" where
  "activations_sound s =
     (\<forall>a \<in> set (activations s).
        (act_status a = ''active'' \<or> act_status a = ''deactivated'')
        \<and> (\<exists>l \<in> set (licenses s). license_key l = UPPER (act_license_key a)))"

text \<open>The number of active activation rows whose key is the license's key up to case.\<close>

definition active_count :: "db \<Rightarrow> license \<Rightarrow> nat" where
  "active_count s l =
     length (filter (\<lambda>a. act_status a = ''active''
                          \<and> UPPER (act_license_key a) = UPPER (license_key l))
               (activations s))"

text \<open>The invariant of the data model: every counter is the number of active rows.\<close>

definition counter_consistent :: "db \<Rightarrow> bool" where
  "counter_consistent s =
     (\<forall>l \<in> set (licenses s). current_activations l = int (active_count s l))"

text \<open>
  The counter of a license is at most its limit rounded up to an integer, or at most 0 when
  the limit is negative (\<open>create_license\<close> accepts any number as the limit).
\<close>

definition within_limit :: "db \<Rightarrow> bool" where
  "within_limit s =
     (\<forall>l \<in> set (licenses s). current_activations l \<le> max \<lceil>max_activations l\<rceil> 0)"

text \<open>What every database produced by the operations satisfies.\<close>

definition db_inv :: "db \<Rightarrow> bool" where
  "db_inv s = (keys_canonical s \<and> licenses_sound s \<and> activations_sound s \<and> within_limit s)"

text \<open>
  What \<open>activate\<close> can do to a license row: with \<open>b\<close> the counter goes up by one and
  \<open>activated_at\<close> is set at \<open>t\<close> if it was not set, with \<open>c\<close> the expiry is set at \<open>e\<close>.
\<close>

definition touched :: "bool \<Rightarrow> timestamp \<Rightarrow> bool \<Rightarrow> timestamp \<Rightarrow> license \<Rightarrow> license" where
  "touched b t c e r =
     r\<lparr>current_activations := current_activations r + (if b then 1 else 0),
       activated_at := (if b then (case activated_at r of None \<Rightarrow> Some t | Some u \<Rightarrow> Some u)
                        else activated_at r),
       expires_at := (if c then Some e else expires_at r)\<rparr>"

text \<open>
  Calls whose key is given in upper case, as the generator writes it; and the activation
  rows such calls leave: keys in upper case, one row for a key and a machine.
\<close>

fun canonical_call :: "call \<Rightarrow> bool" where
  "canonical_call (Create em t m rnd now) = True"
| "canonical_call (Activate k em mid ip clk) = (UPPER (strip k) = strip k)"
| "canonical_call (Verify k mid pick clk) = (UPPER (strip k) = strip k)"
| "canonical_call (Deactivate k mid) = (UPPER (strip k) = strip k)"

definition rows_canonical :: "db \<Rightarrow> bool" where
  "rows_canonical s =
     ((\<forall>a \<in> set (activations s). UPPER (act_license_key a) = act_license_key a)
      \<and> distinct (map (\<lambda>a. (act_license_key a, machine_id a)) (activations s)))"

text \<open>
  The branch that \<open>activate\<close> takes on the trimmed arguments: it refuses with an error,
  or it finds a row for the machine (\<open>Known\<close>), or it inserts one (\<open>New\<close>).  The clock
  and the address have no part in the choice.
\<close>

datatype branch = Refuse error | Known license | New license

definition activate_branch :: "db \<Rightarrow> string \<Rightarrow> string \<Rightarrow> string \<Rightarrow> branch" where
  "activate_branch s key em mid =
     (if key = [] \<or> em = [] \<or> mid = [] then Refuse ValidationError
      else case find_license s key of
        None \<Rightarrow> Refuse InvalidKey
      | Some l \<Rightarrow>
          if status l \<noteq> ''active'' then Refuse (LicenseNotActive (status l))
          else if lower em \<noteq> lower (email l) then Refuse EmailMismatch
          else if find_activation s key mid \<noteq> None then Known l
          else if of_int (current_activations l) \<ge> max_activations l
          then Refuse (ActivationLimitReached (max_activations l))
          else New l)"

subsection \<open>Values for the examples\<close>

text \<open>
  Eight zero bytes from the random source give the key \<open>K0\<close>; \<open>k0\<close> is the same key
  typed in lower case.  \<open>ticks t\<close> is a clock whose readings are \<open>t\<close>, \<open>t + 1\<close>, ...
\<close>

definition zeros :: "byte list" where
  "zeros = replicate 8 0"

definition K0 :: string where
  "K0 = ''UPAGER-0000-0000-0000-0000''"

definition k0 :: string where
  "k0 = ''upager-0000-0000-0000-0000''"

definition ticks :: "timestamp \<Rightarrow> nat \<Rightarrow> timestamp" where
  "ticks t i = t + int i"

section \<open>Tier derivation and key generation\<close>

subsection \<open>Prefix and substring tests\<close>

lemma startswith_prefix: "startswith s p = prefix p s"
  unfolding startswith_def
  by (metis append_eq_conv_conj prefix_def)

lemma contains_sublist: "contains s sub = sublist sub s"
  by (induction s) (auto simp: startswith_prefix sublist_Cons_right)

lemma type_of_tier_spec: "type_of_tier t = spec_type t"
  by (simp add: type_of_tier_def spec_type_def startswith_prefix)

lemma billing_of_tier_spec: "billing_of_tier t = spec_billing_type t"
  by (simp add: billing_of_tier_def spec_billing_type_def contains_sublist)

text \<open>
  Claim C6.  The license row that \<open>create_license\<close> inserts has a type and a billing type
  that are functions of the tier alone: the type is "pro" when the tier starts with "pro",
  "enterprise" when it starts with "enterprise", "free" otherwise; the billing type is
  "one-time" when "lifetime" occurs in the tier, "annual" otherwise.
\<close>

theorem tier_derivation:
  assumes "create_license s em t m rnd now = (Some key, s')"
  shows "\<exists>l. licenses s' = licenses s @ [l] \<and> license_key l = key \<and> tier l = t
           \<and> license_type l = spec_type t \<and> billing_type l = spec_billing_type t"
  using assms
  by (auto simp: create_license_def Let_def type_of_tier_spec billing_of_tier_spec
           split: if_splits)

theorem tier_derivation_witness:
  "\<exists>l. licenses (snd (create_license init_db ''a@x.com'' ''enterprise_lifetime'' 5 (replicate 8 0) 7)) = [l]
       \<and> license_type l = ''enterprise'' \<and> billing_type l = ''one-time''"
proof -
  have c: "create_license init_db ''a@x.com'' ''enterprise_lifetime'' 5 (replicate 8 0) 7
           = (Some ''UPAGER-0000-0000-0000-0000'',
              snd (create_license init_db ''a@x.com'' ''enterprise_lifetime'' 5 (replicate 8 0) 7))"
    by code_simp
  have t: "spec_type ''enterprise_lifetime'' = ''enterprise''"
    by code_simp
  have b: "spec_billing_type ''enterprise_lifetime'' = ''one-time''"
    by code_simp
  have i: "licenses init_db = []"
    by (simp add: init_db_def)
  from tier_derivation [OF c] show ?thesis
    unfolding t b i by auto
qed

subsection \<open>The characters of a generated key\<close>

lemma hex_of_byte_set: "set (hex_of_byte b) \<subseteq> set hexdigits"
proof -
  have "unat b < 256" using unsigned_less [of b] by simp
  then have "unat b div 16 < 16" "unat b mod 16 < 16" by simp_all
  moreover have "length hexdigits = 16" by (simp add: hexdigits_def)
  ultimately show ?thesis
    by (simp add: hex_of_byte_def)
qed

lemma token_hex_set: "set (token_hex n rnd) \<subseteq> set hexdigits"
  unfolding token_hex_def using hex_of_byte_set by auto

lemma length_concat_hex: "length (concat (map hex_of_byte bs)) = 2 * length bs"
  by (induction bs) (simp_all add: hex_of_byte_def)

lemma token_hex_length: "n \<le> length rnd \<Longrightarrow> length (token_hex n rnd) = 2 * n"
  by (simp add: token_hex_def length_concat_hex)

lemma upper_hexdigits_all: "list_all (\<lambda>c. upper_char c \<in> set upper_hexdigits) hexdigits"
  by code_simp

lemma upper_hex_set: "set (upper (token_hex n rnd)) \<subseteq> set upper_hexdigits"
  using upper_hexdigits_all token_hex_set [of n rnd]
  by (auto simp: upper_def list_all_iff)

lemma generate_license_key_unfold:
  "generate_license_key t rnd =
     ''UPAGER-'' @ take 4 (upper (token_hex 8 rnd)) @ ''-'' @ take 4 (drop 4 (upper (token_hex 8 rnd)))
       @ ''-'' @ take 4 (drop 8 (upper (token_hex 8 rnd))) @ ''-'' @ take 4 (drop 12 (upper (token_hex 8 rnd)))"
  by (simp add: generate_license_key_def Let_def)

lemma key_chars_fixed: "list_all (\<lambda>c. upper_char c = c) (''UPAGER-'' @ upper_hexdigits)"
  by code_simp

lemma generate_license_key_chars:
  "set (generate_license_key t rnd) \<subseteq> set (''UPAGER-'' @ upper_hexdigits)"
proof -
  let ?h = "upper (token_hex 8 rnd)"
  have "set (take 4 (drop i ?h)) \<subseteq> set upper_hexdigits" for i
    using upper_hex_set [of 8 rnd] set_take_subset [of 4 "drop i ?h"] set_drop_subset [of i ?h]
    by blast
  from this [of 0] this [of 4] this [of 8] this [of 12] show ?thesis
    unfolding generate_license_key_unfold by auto
qed

lemma generate_license_key_canonical:
  "UPPER (generate_license_key t rnd) = generate_license_key t rnd"
proof -
  have "\<forall>c \<in> set (generate_license_key t rnd). upper_char c = c"
    using generate_license_key_chars [of t rnd] key_chars_fixed
    unfolding list_all_iff by blast
  then show ?thesis
    unfolding UPPER_def by (simp add: map_idI)
qed

subsection \<open>A key determines the eight bytes it was made from\<close>

lemma hexdigits_distinct: "distinct hexdigits"
  by (simp add: hexdigits_def)

lemma hex_of_byte_inj: "hex_of_byte a = hex_of_byte b \<Longrightarrow> a = b"
proof -
  assume h: "hex_of_byte a = hex_of_byte b"
  have la: "unat a < 256" using unsigned_less [of a] by simp
  have lb: "unat b < 256" using unsigned_less [of b] by simp
  have len: "length hexdigits = 16" by (simp add: hexdigits_def)
  from la lb have bd: "unat a div 16 < 16" "unat a mod 16 < 16" "unat b div 16 < 16" "unat b mod 16 < 16"
    by simp_all
  from h have "hexdigits ! (unat a div 16) = hexdigits ! (unat b div 16)"
    "hexdigits ! (unat a mod 16) = hexdigits ! (unat b mod 16)"
    by (simp_all add: hex_of_byte_def)
  with bd len have "unat a div 16 = unat b div 16" "unat a mod 16 = unat b mod 16"
    using hexdigits_distinct by (simp_all add: nth_eq_iff_index_eq)
  then have "unat a = unat b"
    by (metis div_mult_mod_eq)
  then show "a = b" by (simp add: word_eq_iff_unsigned [where ?'a = nat])
qed

lemma concat_hex_inj:
  "length as = length bs \<Longrightarrow> concat (map hex_of_byte as) = concat (map hex_of_byte bs) \<Longrightarrow> as = bs"
proof (induction as bs rule: list_induct2)
  case Nil
  then show ?case by simp
next
  case (Cons a as b bs)
  from Cons.prems have "hex_of_byte a @ concat (map hex_of_byte as) = hex_of_byte b @ concat (map hex_of_byte bs)"
    by simp
  moreover have "length (hex_of_byte a) = length (hex_of_byte b)"
    by (simp add: hex_of_byte_def)
  ultimately have "hex_of_byte a = hex_of_byte b" "concat (map hex_of_byte as) = concat (map hex_of_byte bs)"
    by simp_all
  with Cons.IH show ?case using hex_of_byte_inj by simp
qed

lemma upper_hex_distinct: "distinct (map upper_char hexdigits)"
  by code_simp

lemma upper_hex_inj:
  assumes "set xs \<subseteq> set hexdigits" "set ys \<subseteq> set hexdigits" "upper xs = upper ys"
  shows "xs = ys"
proof -
  have "inj_on upper_char (set hexdigits)"
    using upper_hex_distinct by (simp add: distinct_map)
  then have "inj_on upper_char (set xs \<union> set ys)"
    using assms(1,2) by (meson Un_least inj_on_subset)
  with assms(3) show ?thesis
    unfolding upper_def by (simp add: inj_on_map_eq_map)
qed

lemma four_groups:
  assumes "length h = 16"
  shows "take 4 h @ take 4 (drop 4 h) @ take 4 (drop 8 h) @ take 4 (drop 12 h) = h"
proof -
  have a: "take 4 h @ drop 4 h = h" by simp
  have b: "take 4 (drop 4 h) @ drop 8 h = drop 4 h"
    using append_take_drop_id [of 4 "drop 4 h"] by simp
  have c: "take 4 (drop 8 h) @ drop 12 h = drop 8 h"
    using append_take_drop_id [of 4 "drop 8 h"] by simp
  have d: "take 4 (drop 12 h) = drop 12 h" using assms by simp
  show ?thesis by (simp only: d c b a)
qed

lemma upper_token_hex_length: "8 \<le> length rnd \<Longrightarrow> length (upper (token_hex 8 rnd)) = 16"
  by (simp add: upper_def token_hex_length)

lemma token_hex_take: "token_hex 8 (take 8 rnd) = token_hex 8 rnd"
  by (simp add: token_hex_def)

lemma groups_eq:
  assumes "length a1 = length b1" "length a2 = length b2" "length a3 = length b3"
    and "p @ a1 @ q @ a2 @ q @ a3 @ q @ a4 = p @ b1 @ q @ b2 @ q @ b3 @ q @ b4"
  shows "a1 @ a2 @ a3 @ a4 = b1 @ b2 @ b3 @ b4"
  using assms by simp

lemma take4_length: "length h = 16 \<Longrightarrow> i \<le> 12 \<Longrightarrow> length (take 4 (drop i h)) = 4"
  by simp

lemma generate_license_key_inj:
  assumes "8 \<le> length r1" "8 \<le> length r2"
    and eq: "generate_license_key t1 r1 = generate_license_key t2 r2"
  shows "take 8 r1 = take 8 r2"
proof -
  define h1 where "h1 = upper (token_hex 8 r1)"
  define h2 where "h2 = upper (token_hex 8 r2)"
  have l1: "length h1 = 16" and l2: "length h2 = 16"
    using assms(1,2) by (simp_all add: upper_token_hex_length h1_def h2_def)
  have e: "''UPAGER-'' @ take 4 h1 @ ''-'' @ take 4 (drop 4 h1) @ ''-'' @ take 4 (drop 8 h1)
             @ ''-'' @ take 4 (drop 12 h1)
           = ''UPAGER-'' @ take 4 h2 @ ''-'' @ take 4 (drop 4 h2) @ ''-'' @ take 4 (drop 8 h2)
             @ ''-'' @ take 4 (drop 12 h2)"
    using eq unfolding generate_license_key_unfold h1_def h2_def .
  have a: "length (take 4 h1) = length (take 4 h2)"
    using l1 l2 by simp
  have b: "length (take 4 (drop 4 h1)) = length (take 4 (drop 4 h2))"
    using l1 l2 by (simp add: take4_length)
  have c: "length (take 4 (drop 8 h1)) = length (take 4 (drop 8 h2))"
    using l1 l2 by (simp add: take4_length)
  have "take 4 h1 @ take 4 (drop 4 h1) @ take 4 (drop 8 h1) @ take 4 (drop 12 h1)
        = take 4 h2 @ take 4 (drop 4 h2) @ take 4 (drop 8 h2) @ take 4 (drop 12 h2)"
    by (rule groups_eq [OF a b c e])
  then have "h1 = h2"
    by (simp only: four_groups [OF l1] four_groups [OF l2])
  then have "token_hex 8 r1 = token_hex 8 r2"
    unfolding h1_def h2_def using upper_hex_inj token_hex_set by blast
  then have "concat (map hex_of_byte (take 8 r1)) = concat (map hex_of_byte (take 8 r2))"
    by (simp add: token_hex_def)
  moreover have "length (take 8 r1) = length (take 8 r2)"
    using assms(1,2) by simp
  ultimately show ?thesis
    by (rule concat_hex_inj [rotated])
qed

lemma key_groups:
  assumes "8 \<le> length rnd"
  shows "\<exists>g1 g2 g3 g4.
            generate_license_key t rnd = ''UPAGER-'' @ g1 @ ''-'' @ g2 @ ''-'' @ g3 @ ''-'' @ g4
            \<and> (\<forall>g \<in> {g1, g2, g3, g4}. length g = 4 \<and> set g \<subseteq> set upper_hexdigits)"
proof -
  define h where "h = upper (token_hex 8 rnd)"
  have len: "length h = 16"
    unfolding h_def using assms by (rule upper_token_hex_length)
  have sub: "set (take 4 (drop i h)) \<subseteq> set upper_hexdigits" for i
    unfolding h_def
    using upper_hex_set [of 8 rnd] set_take_subset [of 4 "drop i (upper (token_hex 8 rnd))"]
      set_drop_subset [of i "upper (token_hex 8 rnd)"]
    by blast
  have l: "length (take 4 (drop i h)) = 4" if "i \<le> 12" for i
    using len that by (rule take4_length)
  have g0: "length (take 4 h) = 4 \<and> set (take 4 h) \<subseteq> set upper_hexdigits"
    using l [of 0] sub [of 0] by simp
  have g4: "length (take 4 (drop 4 h)) = 4 \<and> set (take 4 (drop 4 h)) \<subseteq> set upper_hexdigits"
    using l [of 4] sub [of 4] by simp
  have g8: "length (take 4 (drop 8 h)) = 4 \<and> set (take 4 (drop 8 h)) \<subseteq> set upper_hexdigits"
    using l [of 8] sub [of 8] by simp
  have g12: "length (take 4 (drop 12 h)) = 4 \<and> set (take 4 (drop 12 h)) \<subseteq> set upper_hexdigits"
    using l [of 12] sub [of 12] by simp
  have k: "generate_license_key t rnd =
          ''UPAGER-'' @ take 4 h @ ''-'' @ take 4 (drop 4 h) @ ''-'' @ take 4 (drop 8 h)
            @ ''-'' @ take 4 (drop 12 h)"
    unfolding h_def by (rule generate_license_key_unfold)
  have "\<forall>g \<in> {take 4 h, take 4 (drop 4 h), take 4 (drop 8 h), take 4 (drop 12 h)}.
          length g = 4 \<and> set g \<subseteq> set upper_hexdigits"
    using g0 g4 g8 g12 by blast
  with k show ?thesis by blast
qed

text \<open>
  Claim C7, as the code has it.  From a random source that delivers at least eight bytes the
  generator makes \<open>UPAGER-\<close> followed by four groups of four uppercase hexadecimal digits,
  joined by hyphens.  The tier has no influence, only the first eight bytes of the source are
  used, and they can be read back from the key: the key carries eight bytes of randomness.
\<close>

theorem key_shape:
  assumes "8 \<le> length rnd"
  shows "(\<exists>g1 g2 g3 g4.
            generate_license_key t rnd = ''UPAGER-'' @ g1 @ ''-'' @ g2 @ ''-'' @ g3 @ ''-'' @ g4
            \<and> (\<forall>g \<in> {g1, g2, g3, g4}. length g = 4 \<and> set g \<subseteq> set upper_hexdigits))
         \<and> generate_license_key t' (take 8 rnd) = generate_license_key t rnd
         \<and> (\<forall>rnd'. 8 \<le> length rnd' \<and> generate_license_key t rnd' = generate_license_key t rnd
               \<longrightarrow> take 8 rnd' = take 8 rnd)"
proof (intro conjI allI impI)
  show "\<exists>g1 g2 g3 g4.
            generate_license_key t rnd = ''UPAGER-'' @ g1 @ ''-'' @ g2 @ ''-'' @ g3 @ ''-'' @ g4
            \<and> (\<forall>g \<in> {g1, g2, g3, g4}. length g = 4 \<and> set g \<subseteq> set upper_hexdigits)"
    using assms by (rule key_groups)
next
  show "generate_license_key t' (take 8 rnd) = generate_license_key t rnd"
    by (simp only: generate_license_key_def token_hex_take)
next
  fix rnd'
  assume "8 \<le> length rnd' \<and> generate_license_key t rnd' = generate_license_key t rnd"
  then show "take 8 rnd' = take 8 rnd"
    using generate_license_key_inj [OF _ assms] by blast
qed

theorem key_shape_witness:
  "generate_license_key ''free'' (take 8 [0xde, 0xad, 0xbe, 0xef, 1, 2, 3, 0xff, 9])
     = ''UPAGER-DEAD-BEEF-0102-03FF''"
proof -
  have len: "8 \<le> length [0xde, 0xad, 0xbe, 0xef, 1, 2, 3, 0xff, 9 :: byte]"
    by simp
  have v: "generate_license_key ''pro_annual'' [0xde, 0xad, 0xbe, 0xef, 1, 2, 3, 0xff, 9]
           = ''UPAGER-DEAD-BEEF-0102-03FF''"
    by code_simp
  from key_shape [OF len, of "''pro_annual''" "''free''"]
  have "generate_license_key ''free'' (take 8 [0xde, 0xad, 0xbe, 0xef, 1, 2, 3, 0xff, 9])
        = generate_license_key ''pro_annual'' [0xde, 0xad, 0xbe, 0xef, 1, 2, 3, 0xff, 9]"
    by (rule conjunct2 [THEN conjunct1])
  then show ?thesis by (simp only: v)
qed

text \<open>
  Sixteen random bytes are not what the key is made of: two sources of sixteen bytes that
  differ in their second half give the same key.
\<close>

theorem key_entropy_counterexample:
  "generate_license_key ''pro_lifetime'' (replicate 8 0 @ replicate 8 0)
     = generate_license_key ''pro_lifetime'' (replicate 8 0 @ replicate 8 1)
   \<and> length (replicate 8 (0 :: byte) @ replicate 8 1) = 16
   \<and> replicate 8 (0 :: byte) @ replicate 8 0 \<noteq> replicate 8 0 @ replicate 8 1"
proof (intro conjI)
  show "generate_license_key ''pro_lifetime'' (replicate 8 0 @ replicate 8 0)
     = generate_license_key ''pro_lifetime'' (replicate 8 0 @ replicate 8 1)"
    by (simp add: generate_license_key_def token_hex_def)
  show "length (replicate 8 (0 :: byte) @ replicate 8 1) = 16"
    by simp
  show "replicate 8 (0 :: byte) @ replicate 8 0 \<noteq> replicate 8 0 @ replicate 8 1"
    by simp
qed


section \<open>What each operation writes\<close>

lemma update_license_fields [simp]:
  "licenses (update_license key f s) = map (\<lambda>l. if license_key l = key then f l else l) (licenses s)"
  "activations (update_license key f s) = activations s"
  "verification_log (update_license key f s) = verification_log s"
  by (simp_all add: update_license_def)

lemma update_activation_fields [simp]:
  "licenses (update_activation key mid f s) = licenses s"
  "activations (update_activation key mid f s) =
     map (\<lambda>a. if act_license_key a = key \<and> machine_id a = mid then f a else a) (activations s)"
  "verification_log (update_activation key mid f s) = verification_log s"
  by (simp_all add: update_activation_def)

lemma append_log_fields [simp]:
  "licenses (append_log e s) = licenses s"
  "activations (append_log e s) = activations s"
  "verification_log (append_log e s) = verification_log s @ [e]"
  by (simp_all add: append_log_def)

lemma reactivate_fields [simp]:
  "licenses (reactivate key mid ip t s) = licenses s"
  "activations (reactivate key mid ip t s) =
     map (\<lambda>a. if act_license_key a = key \<and> machine_id a = mid
              then a\<lparr>last_verified := Some t, ip_address := ip\<rparr> else a) (activations s)"
  "verification_log (reactivate key mid ip t s) = verification_log s"
  by (simp_all add: reactivate_def)

lemma new_activation_fields [simp]:
  "licenses (new_activation key mid ip clk s) =
     map (\<lambda>l. if license_key l = key
              then l\<lparr>current_activations := current_activations l + 1,
                     activated_at := (case activated_at l of None \<Rightarrow> Some (clk 2) | Some t \<Rightarrow> Some t)\<rparr>
              else l) (licenses s)"
  "activations (new_activation key mid ip clk s) =
     activations s @ [\<lparr>act_license_key = key, machine_id = mid, ip_address = ip,
                        act_activated_at = clk 0, last_verified = Some (clk 1),
                        act_status = ''active''\<rparr>]"
  "verification_log (new_activation key mid ip clk s) = verification_log s"
  by (simp_all add: new_activation_def)

lemma finish_activate_result:
  "fst (finish_activate l key now s1) =
     Inr \<lparr>info_type = license_type l, info_tier = tier l, info_billing_type = billing_type l,
          info_expires = (if billing_type l = ''one-time'' then None else Some (now + days365)),
          info_maintenance_expires = Some (now + days365)\<rparr>"
  by (simp add: finish_activate_def Let_def)

lemma finish_activate_state:
  "snd (finish_activate l key now s1) =
     (if expires_at l = None \<and> billing_type l \<noteq> ''one-time''
      then update_license key (\<lambda>r. r\<lparr>expires_at := Some (now + days365)\<rparr>) s1 else s1)"
  by (simp add: finish_activate_def Let_def)

lemma finish_activate_fields [simp]:
  "activations (snd (finish_activate l key now s1)) = activations s1"
  "verification_log (snd (finish_activate l key now s1)) = verification_log s1"
  "licenses (snd (finish_activate l key now s1)) =
     (if expires_at l = None \<and> billing_type l \<noteq> ''one-time''
      then map (\<lambda>r. if license_key r = key then r\<lparr>expires_at := Some (now + days365)\<rparr> else r)
             (licenses s1)
      else licenses s1)"
  by (simp_all add: finish_activate_state)

text \<open>The three ways a call of \<open>activate\<close> can go.\<close>

lemma activate_cases:
  obtains
    (refused) e where "activate s k em m ip clk = (Inl e, s)"
  | (known) l a where "strip k \<noteq> []" "strip m \<noteq> []"
      "find_license s (strip k) = Some l" "status l = ''active''"
      "lower (strip em) = lower (email l)"
      "find_activation s (strip k) (strip m) = Some a"
      "activate s k em m ip clk =
         finish_activate l (strip k) (clk 1) (reactivate (strip k) (strip m) ip (clk 0) s)"
  | (new) l where "strip k \<noteq> []" "strip m \<noteq> []"
      "find_license s (strip k) = Some l" "status l = ''active''"
      "lower (strip em) = lower (email l)"
      "find_activation s (strip k) (strip m) = None"
      "of_int (current_activations l) < max_activations l"
      "activate s k em m ip clk =
         finish_activate l (strip k) (clk 3) (new_activation (strip k) (strip m) ip clk s)"
proof (cases "strip k = [] \<or> strip em = [] \<or> strip m = []")
  case True
  then have "activate s k em m ip clk = (Inl ValidationError, s)"
    by (simp add: activate_def Let_def)
  then show ?thesis by (rule refused)
next
  case ne: False
  show ?thesis
  proof (cases "find_license s (strip k)")
    case None
    with ne have "activate s k em m ip clk = (Inl InvalidKey, s)"
      by (simp add: activate_def Let_def)
    then show ?thesis by (rule refused)
  next
    case (Some l)
    show ?thesis
    proof (cases "status l = ''active'' \<and> lower (strip em) = lower (email l)")
      case False
      with ne Some have "\<exists>e. activate s k em m ip clk = (Inl e, s)"
        by (auto simp: activate_def Let_def)
      then show ?thesis using refused by blast
    next
      case ok: True
      show ?thesis
      proof (cases "find_activation s (strip k) (strip m)")
        case (Some a)
        with ne \<open>find_license s (strip k) = Some l\<close> ok
        have "activate s k em m ip clk =
           finish_activate l (strip k) (clk 1) (reactivate (strip k) (strip m) ip (clk 0) s)"
          by (simp add: activate_def Let_def)
        with ne \<open>find_license s (strip k) = Some l\<close> ok Some show ?thesis
          using known by blast
      next
        case None
        show ?thesis
        proof (cases "of_int (current_activations l) < max_activations l")
          case True
          with ne \<open>find_license s (strip k) = Some l\<close> ok None
          have "activate s k em m ip clk =
             finish_activate l (strip k) (clk 3) (new_activation (strip k) (strip m) ip clk s)"
            by (simp add: activate_def Let_def)
          with ne \<open>find_license s (strip k) = Some l\<close> ok None True show ?thesis
            using new by blast
        next
          case False
          with ne \<open>find_license s (strip k) = Some l\<close> ok None
          have "activate s k em m ip clk = (Inl (ActivationLimitReached (max_activations l)), s)"
            by (simp add: activate_def Let_def)
          then show ?thesis by (rule refused)
        qed
      qed
    qed
  qed
qed

section \<open>Invariants of the databases that the operations produce\<close>

lemma run_Nil [simp]: "run [] = init_db"
  by (simp add: run_def)

lemma run_snoc [simp]: "run (cs @ [c]) = step (run cs) c"
  by (simp add: run_def)

lemma find_license_Some:
  assumes "find_license s key = Some l"
  shows "l \<in> set (licenses s)" "UPPER (license_key l) = UPPER key"
  using assms unfolding find_license_def find_Some_iff
  by (auto simp: in_set_conv_nth)

text \<open>With canonical keys the license found for a key is the only row an exact match can hit.\<close>

lemma canonical_unique:
  assumes "keys_canonical s" "find_license s key = Some l"
    and "x \<in> set (licenses s)" "UPPER (license_key x) = UPPER key"
  shows "x = l"
proof -
  from assms(2) have l: "l \<in> set (licenses s)" "UPPER (license_key l) = UPPER key"
    by (rule find_license_Some)+
  from assms(1) l(1) assms(3) have "UPPER (license_key l) = license_key l"
    "UPPER (license_key x) = license_key x"
    by (simp_all add: keys_canonical_def)
  with l(2) assms(4) have "license_key x = license_key l" by simp
  moreover from assms(1) have "inj_on license_key (set (licenses s))"
    by (simp add: keys_canonical_def distinct_map)
  ultimately show ?thesis using assms(3) l(1) by (simp add: inj_on_def)
qed

lemma canonical_exact:
  assumes "keys_canonical s" "find_license s key = Some l"
    and "x \<in> set (licenses s)" "license_key x = key"
  shows "x = l"
  using canonical_unique [OF assms(1,2,3)] assms(4) by simp

lemma canonical_found_key:
  assumes "keys_canonical s" "find_license s key = Some l"
  shows "license_key l = UPPER key"
  using find_license_Some [OF assms(2)] assms(1) by (auto simp: keys_canonical_def)

lemma find_license_exists:
  assumes "x \<in> set (licenses s)" "UPPER (license_key x) = UPPER key"
  shows "\<exists>l. find_license s key = Some l"
proof (cases "find_license s key")
  case None
  with assms show ?thesis by (simp add: find_license_def find_None_iff)
qed simp

text \<open>Rewriting rows without touching their keys.\<close>

lemma find_map_keep:
  assumes "\<And>x. P (g x) = P x"
  shows "find P (map g xs) = map_option g (find P xs)"
  by (induction xs) (simp_all add: assms)

lemma keys_canonical_map:
  assumes "keys_canonical s" "licenses s' = map g (licenses s)"
    and "\<And>x. license_key (g x) = license_key x"
  shows "keys_canonical s'"
proof -
  have "map license_key (licenses s') = map license_key (licenses s)"
    using assms(2,3) by simp
  moreover have "\<forall>l \<in> set (licenses s'). UPPER (license_key l) = license_key l"
    using assms by (auto simp: keys_canonical_def)
  ultimately show ?thesis using assms(1) by (simp add: keys_canonical_def)
qed

lemma licenses_sound_map:
  assumes "licenses_sound s" "licenses s' = map g (licenses s)"
    and "\<And>x. x \<in> set (licenses s) \<Longrightarrow>
           status (g x) = status x \<and> tier (g x) = tier x \<and> license_type (g x) = license_type x
           \<and> billing_type (g x) = billing_type x
           \<and> (billing_type x = ''one-time'' \<longrightarrow> expires_at (g x) = expires_at x)"
  shows "licenses_sound s'"
  unfolding licenses_sound_def
proof
  fix l' assume "l' \<in> set (licenses s')"
  then obtain x where x: "x \<in> set (licenses s)" "l' = g x"
    using assms(2) by auto
  from assms(1) x(1) have sx: "status x = ''active''" "license_type x = type_of_tier (tier x)"
    "billing_type x = billing_of_tier (tier x)" "billing_type x = ''one-time'' \<longrightarrow> expires_at x = None"
    by (simp_all add: licenses_sound_def)
  from assms(3) [OF x(1)] sx x(2)
  show "status l' = ''active'' \<and> license_type l' = type_of_tier (tier l')
        \<and> billing_type l' = billing_of_tier (tier l')
        \<and> (billing_type l' = ''one-time'' \<longrightarrow> expires_at l' = None)"
    by simp
qed

lemma activations_sound_step:
  assumes "activations_sound s"
    and "license_key ` set (licenses s) \<subseteq> license_key ` set (licenses s')"
    and "\<And>a'. a' \<in> set (activations s') \<Longrightarrow>
          (\<exists>a \<in> set (activations s). act_license_key a' = act_license_key a
              \<and> (act_status a' = act_status a \<or> act_status a' = ''deactivated''))
          \<or> (act_status a' = ''active'' \<and> UPPER (act_license_key a') \<in> license_key ` set (licenses s'))"
  shows "activations_sound s'"
  unfolding activations_sound_def
proof
  fix a' assume "a' \<in> set (activations s')"
  from assms(3) [OF this]
  show "(act_status a' = ''active'' \<or> act_status a' = ''deactivated'')
        \<and> (\<exists>l \<in> set (licenses s'). license_key l = UPPER (act_license_key a'))"
  proof
    assume "\<exists>a \<in> set (activations s). act_license_key a' = act_license_key a
              \<and> (act_status a' = act_status a \<or> act_status a' = ''deactivated'')"
    then obtain a where a: "a \<in> set (activations s)" "act_license_key a' = act_license_key a"
      "act_status a' = act_status a \<or> act_status a' = ''deactivated''" by blast
    from assms(1) a(1) have st: "act_status a = ''active'' \<or> act_status a = ''deactivated''"
      and "\<exists>l \<in> set (licenses s). license_key l = UPPER (act_license_key a)"
      by (simp_all add: activations_sound_def)
    then have "UPPER (act_license_key a) \<in> license_key ` set (licenses s)"
      by force
    with assms(2) have "UPPER (act_license_key a) \<in> license_key ` set (licenses s')"
      by blast
    with a(2,3) st show ?thesis by force
  next
    assume "act_status a' = ''active'' \<and> UPPER (act_license_key a') \<in> license_key ` set (licenses s')"
    then show ?thesis by force
  qed
qed

lemma db_inv_init: "db_inv init_db"
  by (simp add: db_inv_def keys_canonical_def licenses_sound_def activations_sound_def
        within_limit_def init_db_def)

subsection \<open>The rows after \<open>activate\<close>\<close>

lemma touched_fields [simp]:
  "license_key (touched b t c e r) = license_key r"
  "email (touched b t c e r) = email r"
  "status (touched b t c e r) = status r"
  "tier (touched b t c e r) = tier r"
  "license_type (touched b t c e r) = license_type r"
  "billing_type (touched b t c e r) = billing_type r"
  "max_activations (touched b t c e r) = max_activations r"
  "current_activations (touched b t c e r) = current_activations r + (if b then 1 else 0)"
  "expires_at (touched b t c e r) = (if c then Some e else expires_at r)"
  by (simp_all add: touched_def)

lemma touched_id [simp]: "touched False t False e r = r"
  by (simp add: touched_def)

lemma activate_licenses:
  "\<exists>b c e t.
     licenses (snd (activate s k em m ip clk)) =
       map (\<lambda>r. if license_key r = strip k then touched b t c e r else r) (licenses s)
     \<and> (c \<longrightarrow> (\<exists>l. find_license s (strip k) = Some l \<and> expires_at l = None
                 \<and> billing_type l \<noteq> ''one-time''))
     \<and> (b \<longrightarrow> (\<exists>l. find_license s (strip k) = Some l
                 \<and> of_int (current_activations l) < max_activations l))"
proof (cases rule: activate_cases [where s=s and k=k and em=em and m=m and ip=ip and clk=clk])
  case (refused err)
  then have "licenses (snd (activate s k em m ip clk)) =
       map (\<lambda>r. if license_key r = strip k then touched False 0 False 0 r else r) (licenses s)"
    by (simp add: map_idI)
  then show ?thesis by blast
next
  case (known l a)
  let ?c = "expires_at l = None \<and> billing_type l \<noteq> ''one-time''"
  have "licenses (snd (activate s k em m ip clk)) =
       map (\<lambda>r. if license_key r = strip k then touched False 0 ?c (clk 1 + days365) r else r)
         (licenses s)"
    unfolding known(7) by (auto simp: map_idI touched_def)
  moreover have "?c \<longrightarrow> (\<exists>l. find_license s (strip k) = Some l \<and> expires_at l = None
                 \<and> billing_type l \<noteq> ''one-time'')"
    using known(3) by blast
  ultimately show ?thesis by blast
next
  case (new l)
  let ?c = "expires_at l = None \<and> billing_type l \<noteq> ''one-time''"
  have "licenses (snd (activate s k em m ip clk)) =
       map (\<lambda>r. if license_key r = strip k then touched True (clk 2) ?c (clk 3 + days365) r else r)
         (licenses s)"
    unfolding new(8) by (auto simp: touched_def)
  moreover have "?c \<longrightarrow> (\<exists>l. find_license s (strip k) = Some l \<and> expires_at l = None
                 \<and> billing_type l \<noteq> ''one-time'')"
    using new(3) by blast
  moreover have "True \<longrightarrow> (\<exists>l. find_license s (strip k) = Some l
                 \<and> of_int (current_activations l) < max_activations l)"
    using new(3,7) by blast
  ultimately show ?thesis by blast
qed

lemma activate_activations:
  "activations (snd (activate s k em m ip clk)) = activations s
   \<or> activations (snd (activate s k em m ip clk)) =
       map (\<lambda>a. if act_license_key a = strip k \<and> machine_id a = strip m
                then a\<lparr>last_verified := Some (clk 0), ip_address := ip\<rparr> else a) (activations s)
   \<or> (\<exists>l. find_license s (strip k) = Some l)
      \<and> activations (snd (activate s k em m ip clk)) =
          activations s @ [\<lparr>act_license_key = strip k, machine_id = strip m, ip_address = ip,
                             act_activated_at = clk 0, last_verified = Some (clk 1),
                             act_status = ''active''\<rparr>]"
proof (cases rule: activate_cases [where s=s and k=k and em=em and m=m and ip=ip and clk=clk])
  case (refused err)
  then show ?thesis by simp
next
  case (known l a)
  show ?thesis unfolding known(7) by simp
next
  case (new l)
  show ?thesis unfolding new(8) using new(3) by simp
qed

lemma activate_log [simp]:
  "verification_log (snd (activate s k em m ip clk)) = verification_log s"
  by (cases rule: activate_cases [where s=s and k=k and em=em and m=m and ip=ip and clk=clk]) simp_all

subsection \<open>The rows after \<open>verify\<close>, \<open>deactivate\<close> and \<open>create_license\<close>\<close>

text \<open>The ways a call of \<open>verify\<close> can go.\<close>

lemma verify_cases:
  obtains
    (invalid_key) "strip k \<noteq> []" "strip m \<noteq> []" "find_license s (strip k) = None"
      "verify s k m pick clk =
         (Inl InvalidKey,
          append_log \<lparr>log_license_key = strip k, log_machine_id = strip m, log_ip_address = None,
                      log_timestamp = clk 0, log_result = ''failed'',
                      log_message = ''Invalid key''\<rparr> s)"
  | (refused) e where "e \<noteq> InvalidKey" "verify s k m pick clk = (Inl e, s)"
  | (valid) l a where "strip k \<noteq> []" "strip m \<noteq> []"
      "find_license s (strip k) = Some l" "status l = ''active''"
      "join_activation pick s l (strip m) = Some a" "act_status a \<noteq> []"
      "\<not> (checks_expiry l \<and> has_expired l (clk 0))"
      "verify s k m pick clk =
         (Inr \<lparr>info_type = license_type l, info_tier = tier l,
               info_billing_type = billing_type l, info_expires = expires_at l,
               info_maintenance_expires =
                 (if billing_type l = ''one-time'' then Some (act_activated_at a + days365)
                  else expires_at l)\<rparr>,
          append_log \<lparr>log_license_key = strip k, log_machine_id = strip m,
                      log_ip_address = None, log_timestamp = clk (clock_offset l + 1),
                      log_result = ''success'', log_message = ''Verified '' @ tier l\<rparr>
            (update_activation (strip k) (strip m)
               (\<lambda>r. r\<lparr>last_verified := Some (clk (clock_offset l))\<rparr>) s))"
proof (cases "strip k = [] \<or> strip m = []")
  case True
  then have "verify s k m pick clk = (Inl ValidationError, s)"
    by (simp add: verify_def Let_def)
  then show ?thesis using refused by blast
next
  case ne: False
  show ?thesis
  proof (cases "find_license s (strip k)")
    case None
    with ne show ?thesis
      by (intro invalid_key) (simp_all add: verify_def Let_def)
  next
    case (Some l)
    note lic = this
    show ?thesis
    proof (cases "status l = ''active''")
      case False
      with ne lic have "verify s k m pick clk = (Inl (LicenseNotActive (status l)), s)"
        by (simp add: verify_def Let_def)
      then show ?thesis using refused by blast
    next
      case act: True
      show ?thesis
      proof (cases "join_activation pick s l (strip m)")
        case None
        with ne lic act have "verify s k m pick clk = (Inl NotActivatedHere, s)"
          by (simp add: verify_def Let_def)
        then show ?thesis using refused by blast
      next
        case (Some a)
        note row = this
        show ?thesis
        proof (cases "act_status a = []")
          case True
          with ne lic act row have "verify s k m pick clk = (Inl NotActivatedHere, s)"
            by (simp add: verify_def Let_def)
          then show ?thesis using refused by blast
        next
          case st: False
          show ?thesis
          proof (cases "checks_expiry l \<and> has_expired l (clk 0)")
            case True
            with ne lic act row st have "verify s k m pick clk = (Inl Expired, s)"
              by (simp add: verify_def Let_def)
            then show ?thesis using refused by blast
          next
            case False
            with ne lic act row st show ?thesis
              by (intro valid [of l a]) (simp_all add: verify_def Let_def)
          qed
        qed
      qed
    qed
  qed
qed

lemma verify_licenses [simp]: "licenses (snd (verify s k m pick clk)) = licenses s"
  by (cases rule: verify_cases [where s=s and k=k and m=m and pick=pick and clk=clk]) simp_all

lemma verify_activations:
  "activations (snd (verify s k m pick clk)) = activations s
   \<or> (\<exists>t. activations (snd (verify s k m pick clk)) =
         map (\<lambda>a. if act_license_key a = strip k \<and> machine_id a = strip m
                  then a\<lparr>last_verified := Some t\<rparr> else a) (activations s))"
proof (cases rule: verify_cases [where s=s and k=k and m=m and pick=pick and clk=clk])
  case invalid_key
  then show ?thesis by simp
next
  case (refused e)
  then show ?thesis by simp
next
  case (valid l a)
  show ?thesis unfolding valid(8) by (rule disjI2) (simp, blast)
qed

lemma deactivate_cases:
  obtains
    (refused) e where "deactivate s k m = (Inl e, s)"
  | (applied) "strip k \<noteq> []" "strip m \<noteq> []"
      "\<exists>a \<in> set (activations s). same_pair (strip k) (strip m) a \<and> act_status a = ''active''"
      "fst (deactivate s k m) = Inr ()"
      "licenses (snd (deactivate s k m)) =
         map (\<lambda>r. if license_key r = strip k
                  then r\<lparr>current_activations := current_activations r - 1\<rparr> else r) (licenses s)"
      "activations (snd (deactivate s k m)) =
         map (\<lambda>a. if same_pair (strip k) (strip m) a then a\<lparr>act_status := ''deactivated''\<rparr> else a)
           (activations s)"
      "verification_log (snd (deactivate s k m)) = verification_log s"
proof (cases "strip k = [] \<or> strip m = []")
  case True
  then have "deactivate s k m = (Inl ValidationError, s)"
    by (simp add: deactivate_def Let_def)
  then show ?thesis by (rule refused)
next
  case ne: False
  define P where "P = (\<lambda>a. same_pair (strip k) (strip m) a \<and> act_status a = ''active'')"
  show ?thesis
  proof (cases "find P (activations s) = None")
    case True
    with ne have "deactivate s k m = (Inl NoActiveActivation, s)"
      unfolding P_def by (simp add: deactivate_def Let_def)
    then show ?thesis by (rule refused)
  next
    case False
    then have "\<exists>a \<in> set (activations s). P a"
      by (simp add: find_None_iff) blast
    then have ex: "\<exists>a \<in> set (activations s). same_pair (strip k) (strip m) a \<and> act_status a = ''active''"
      unfolding P_def .
    from ne False have d: "deactivate s k m =
       (Inr (), update_license (strip k) (\<lambda>r. r\<lparr>current_activations := current_activations r - 1\<rparr>)
          (s\<lparr>activations :=
                map (\<lambda>a. if same_pair (strip k) (strip m) a
                         then a\<lparr>act_status := ''deactivated''\<rparr> else a) (activations s)\<rparr>))"
      unfolding P_def by (simp add: deactivate_def Let_def)
    from ne have n1: "strip k \<noteq> []" and n2: "strip m \<noteq> []" by simp_all
    show ?thesis
      by (rule applied [OF n1 n2 ex]) (simp_all add: d)
  qed
qed

lemma create_cases:
  obtains
    (collision) "create_license s em t mx rnd now = (None, s)"
  | (inserted) "generate_license_key t rnd \<notin> license_key ` set (licenses s)"
      "fst (create_license s em t mx rnd now) = Some (generate_license_key t rnd)"
      "licenses (snd (create_license s em t mx rnd now)) = licenses s @
         [\<lparr>license_key = generate_license_key t rnd, email = em,
           license_type = type_of_tier t, tier = t, billing_type = billing_of_tier t,
           status = ''active'', created_at = now, activated_at = None, expires_at = None,
           maintenance_expires_at = None, max_activations = mx, current_activations = 0\<rparr>]"
      "activations (snd (create_license s em t mx rnd now)) = activations s"
      "verification_log (snd (create_license s em t mx rnd now)) = verification_log s"
proof (cases "generate_license_key t rnd \<in> license_key ` set (licenses s)")
  case True
  then have "create_license s em t mx rnd now = (None, s)"
    by (simp add: create_license_def Let_def)
  then show ?thesis by (rule collision)
next
  case False
  then show ?thesis
    by (intro inserted) (simp_all add: create_license_def Let_def)
qed

subsection \<open>Every operation preserves the invariants\<close>

lemma map_rows_origin:
  assumes "a' \<in> set (map f xs)"
    and "\<And>x. act_license_key (f x) = act_license_key x
            \<and> (act_status (f x) = act_status x \<or> act_status (f x) = ''deactivated'')"
  shows "\<exists>a \<in> set xs. act_license_key a' = act_license_key a
            \<and> (act_status a' = act_status a \<or> act_status a' = ''deactivated'')"
proof -
  from assms(1) obtain x where "x \<in> set xs" "a' = f x" by auto
  with assms(2) [of x] show ?thesis by blast
qed

lemma create_inv:
  assumes "db_inv s"
  shows "db_inv (snd (create_license s em t mx rnd now))"
proof (cases rule: create_cases [where s=s and em=em and t=t and mx=mx and rnd=rnd and now=now])
  case collision
  with assms show ?thesis by simp
next
  case inserted
  let ?s' = "snd (create_license s em t mx rnd now)"
  from assms have kc: "keys_canonical s" and ls: "licenses_sound s"
    and as: "activations_sound s" and wl: "within_limit s"
    by (simp_all add: db_inv_def)
  have "keys_canonical ?s'"
    using kc inserted(1)
    by (simp add: keys_canonical_def inserted(3) generate_license_key_canonical)
  moreover have "licenses_sound ?s'"
    using ls by (simp add: licenses_sound_def inserted(3))
  moreover have "activations_sound ?s'"
    using as by (rule activations_sound_step) (auto simp: inserted(3,4))
  moreover have "within_limit ?s'"
    using wl by (simp add: within_limit_def inserted(3))
  ultimately show ?thesis by (simp add: db_inv_def)
qed

lemma activate_inv:
  assumes "db_inv s"
  shows "db_inv (snd (activate s k em m ip clk))"
proof -
  let ?s' = "snd (activate s k em m ip clk)"
  from assms have kc: "keys_canonical s" and ls: "licenses_sound s"
    and as: "activations_sound s" and wl: "within_limit s"
    by (simp_all add: db_inv_def)
  from activate_licenses [of s k em m ip clk] obtain b c e t where
    form: "licenses ?s' =
       map (\<lambda>r. if license_key r = strip k then touched b t c e r else r) (licenses s)"
    and c: "c \<Longrightarrow> \<exists>l. find_license s (strip k) = Some l \<and> expires_at l = None
                 \<and> billing_type l \<noteq> ''one-time''"
    and b: "b \<Longrightarrow> \<exists>l. find_license s (strip k) = Some l
                 \<and> of_int (current_activations l) < max_activations l"
    by blast
  have keys: "map license_key (licenses ?s') = map license_key (licenses s)"
    unfolding form by simp
  have "keys_canonical ?s'"
    using kc form by (rule keys_canonical_map) simp
  moreover have "licenses_sound ?s'"
    using ls form
  proof (rule licenses_sound_map)
    fix x assume x: "x \<in> set (licenses s)"
    have "billing_type x \<noteq> ''one-time''" if "c" "license_key x = strip k"
    proof -
      from c [OF that(1)] obtain l where l: "find_license s (strip k) = Some l"
        "billing_type l \<noteq> ''one-time''" by blast
      from canonical_exact [OF kc l(1) x that(2)] l(2) show ?thesis by simp
    qed
    then show "status (if license_key x = strip k then touched b t c e x else x) = status x \<and> tier (if license_key x = strip k then touched b t c e x else x) = tier x \<and> license_type (if license_key x = strip k then touched b t c e x else x) = license_type x
           \<and> billing_type (if license_key x = strip k then touched b t c e x else x) = billing_type x
           \<and> (billing_type x = ''one-time'' \<longrightarrow> expires_at (if license_key x = strip k then touched b t c e x else x) = expires_at x)"
      by simp
  qed
  moreover have "activations_sound ?s'"
    using as
  proof (rule activations_sound_step)
    show "license_key ` set (licenses s) \<subseteq> license_key ` set (licenses ?s')"
      using keys by (metis order_refl set_map)
  next
    fix a' assume a': "a' \<in> set (activations ?s')"
    have img: "license_key ` set (licenses ?s') = license_key ` set (licenses s)"
      using keys by (metis set_map)
    from activate_activations [of s k em m ip clk]
    show "(\<exists>a \<in> set (activations s). act_license_key a' = act_license_key a
              \<and> (act_status a' = act_status a \<or> act_status a' = ''deactivated''))
          \<or> (act_status a' = ''active'' \<and> UPPER (act_license_key a') \<in> license_key ` set (licenses ?s'))"
    proof (elim disjE conjE exE)
      assume "activations ?s' = activations s"
      with a' show ?thesis by auto
    next
      assume "activations ?s' =
         map (\<lambda>a. if act_license_key a = strip k \<and> machine_id a = strip m
                then a\<lparr>last_verified := Some (clk 0), ip_address := ip\<rparr> else a) (activations s)"
      with a' have "a' \<in> set (map (\<lambda>a. if act_license_key a = strip k \<and> machine_id a = strip m
                then a\<lparr>last_verified := Some (clk 0), ip_address := ip\<rparr> else a) (activations s))"
        by simp
      then have "\<exists>a \<in> set (activations s). act_license_key a' = act_license_key a
              \<and> (act_status a' = act_status a \<or> act_status a' = ''deactivated'')"
        by (rule map_rows_origin) simp
      then show ?thesis by (rule disjI1)
    next
      fix l assume l: "find_license s (strip k) = Some l"
        and "activations ?s' =
          activations s @ [\<lparr>act_license_key = strip k, machine_id = strip m, ip_address = ip,
                             act_activated_at = clk 0, last_verified = Some (clk 1),
                             act_status = ''active''\<rparr>]"
      with a' have "a' \<in> set (activations s) \<or>
         a' = \<lparr>act_license_key = strip k, machine_id = strip m, ip_address = ip,
               act_activated_at = clk 0, last_verified = Some (clk 1), act_status = ''active''\<rparr>"
        by auto
      then show ?thesis
      proof
        assume "a' \<in> set (activations s)"
        then show ?thesis by auto
      next
        assume n: "a' = \<lparr>act_license_key = strip k, machine_id = strip m, ip_address = ip,
               act_activated_at = clk 0, last_verified = Some (clk 1), act_status = ''active''\<rparr>"
        from canonical_found_key [OF kc l] find_license_Some(1) [OF l]
        have "UPPER (strip k) \<in> license_key ` set (licenses s)"
          by (metis imageI)
        with n img show ?thesis by simp
      qed
    qed
  qed
  moreover have "within_limit ?s'"
    unfolding within_limit_def
  proof
    fix l' assume "l' \<in> set (licenses ?s')"
    then obtain x where x: "x \<in> set (licenses s)"
      and l': "l' = (if license_key x = strip k then touched b t c e x else x)"
      unfolding form by auto
    from wl x have le: "current_activations x \<le> max \<lceil>max_activations x\<rceil> 0"
      by (simp add: within_limit_def)
    have "of_int (current_activations x) < max_activations x" if "b" "license_key x = strip k"
    proof -
      from b [OF that(1)] obtain l where l: "find_license s (strip k) = Some l"
        "of_int (current_activations l) < max_activations l" by blast
      from canonical_exact [OF kc l(1) x that(2)] l(2) show ?thesis by simp
    qed
    then have "b \<Longrightarrow> license_key x = strip k \<Longrightarrow> current_activations x + 1 \<le> \<lceil>max_activations x\<rceil>"
      by (simp add: less_ceiling_iff [symmetric])
    with le show "current_activations l' \<le> max \<lceil>max_activations l'\<rceil> 0"
      unfolding l' by auto
  qed
  ultimately show ?thesis by (simp add: db_inv_def)
qed

lemma verify_inv:
  assumes "db_inv s"
  shows "db_inv (snd (verify s k m pick clk))"
proof -
  let ?s' = "snd (verify s k m pick clk)"
  from assms have kc: "keys_canonical s" and ls: "licenses_sound s"
    and as: "activations_sound s" and wl: "within_limit s"
    by (simp_all add: db_inv_def)
  have "keys_canonical ?s'"
    using kc by (simp add: keys_canonical_def)
  moreover have "licenses_sound ?s'"
    using ls by (simp add: licenses_sound_def)
  moreover have "within_limit ?s'"
    using wl by (simp add: within_limit_def)
  moreover have "activations_sound ?s'"
    using as
  proof (rule activations_sound_step)
    show "license_key ` set (licenses s) \<subseteq> license_key ` set (licenses ?s')"
      by simp
  next
    fix a' assume a': "a' \<in> set (activations ?s')"
    from verify_activations [of s k m pick clk]
    have "\<exists>a \<in> set (activations s). act_license_key a' = act_license_key a
              \<and> (act_status a' = act_status a \<or> act_status a' = ''deactivated'')"
    proof (elim disjE exE)
      assume "activations ?s' = activations s"
      with a' show ?thesis by auto
    next
      fix t assume "activations ?s' =
         map (\<lambda>a. if act_license_key a = strip k \<and> machine_id a = strip m
                  then a\<lparr>last_verified := Some t\<rparr> else a) (activations s)"
      with a' have "a' \<in> set (map (\<lambda>a. if act_license_key a = strip k \<and> machine_id a = strip m
                  then a\<lparr>last_verified := Some t\<rparr> else a) (activations s))"
        by simp
      then show ?thesis by (rule map_rows_origin) simp
    qed
    then show "(\<exists>a \<in> set (activations s). act_license_key a' = act_license_key a
              \<and> (act_status a' = act_status a \<or> act_status a' = ''deactivated''))
          \<or> (act_status a' = ''active'' \<and> UPPER (act_license_key a') \<in> license_key ` set (licenses ?s'))"
      by (rule disjI1)
  qed
  ultimately show ?thesis by (simp add: db_inv_def)
qed

lemma deactivate_inv:
  assumes "db_inv s"
  shows "db_inv (snd (deactivate s k m))"
proof (cases rule: deactivate_cases [where s=s and k=k and m=m])
  case (refused e)
  with assms show ?thesis by simp
next
  case applied
  let ?s' = "snd (deactivate s k m)"
  from assms have kc: "keys_canonical s" and ls: "licenses_sound s"
    and as: "activations_sound s" and wl: "within_limit s"
    by (simp_all add: db_inv_def)
  have keys: "map license_key (licenses ?s') = map license_key (licenses s)"
    unfolding applied(5) by simp
  have "keys_canonical ?s'"
    using kc applied(5) by (rule keys_canonical_map) simp
  moreover have "licenses_sound ?s'"
    using ls applied(5) by (rule licenses_sound_map) simp
  moreover have "within_limit ?s'"
    unfolding within_limit_def
  proof
    fix l' assume "l' \<in> set (licenses ?s')"
    then obtain x where x: "x \<in> set (licenses s)"
      and l': "l' = (if license_key x = strip k
                     then x\<lparr>current_activations := current_activations x - 1\<rparr> else x)"
      unfolding applied(5) by auto
    from wl x have "current_activations x \<le> max \<lceil>max_activations x\<rceil> 0"
      by (simp add: within_limit_def)
    then show "current_activations l' \<le> max \<lceil>max_activations l'\<rceil> 0"
      unfolding l' by auto
  qed
  moreover have "activations_sound ?s'"
    using as
  proof (rule activations_sound_step)
    show "license_key ` set (licenses s) \<subseteq> license_key ` set (licenses ?s')"
      using keys by (metis order_refl set_map)
  next
    fix a' assume "a' \<in> set (activations ?s')"
    then have "a' \<in> set (map (\<lambda>a. if same_pair (strip k) (strip m) a
                   then a\<lparr>act_status := ''deactivated''\<rparr> else a) (activations s))"
      unfolding applied(6) .
    then have "\<exists>a \<in> set (activations s). act_license_key a' = act_license_key a
              \<and> (act_status a' = act_status a \<or> act_status a' = ''deactivated'')"
      by (rule map_rows_origin) simp
    then show "(\<exists>a \<in> set (activations s). act_license_key a' = act_license_key a
              \<and> (act_status a' = act_status a \<or> act_status a' = ''deactivated''))
          \<or> (act_status a' = ''active'' \<and> UPPER (act_license_key a') \<in> license_key ` set (licenses ?s'))"
      by (rule disjI1)
  qed
  ultimately show ?thesis by (simp add: db_inv_def)
qed

lemma step_inv: "db_inv s \<Longrightarrow> db_inv (step s c)"
  by (cases c) (simp_all add: create_inv activate_inv verify_inv deactivate_inv)

lemma run_inv: "db_inv (run cs)"
  by (induction cs rule: rev_induct) (simp_all add: db_inv_init step_inv)

lemma run_canonical: "keys_canonical (run cs)"
  using run_inv [of cs] by (simp add: db_inv_def)

lemma run_licenses_sound: "licenses_sound (run cs)"
  using run_inv [of cs] by (simp add: db_inv_def)

lemma run_activations_sound: "activations_sound (run cs)"
  using run_inv [of cs] by (simp add: db_inv_def)

lemma run_within_limit: "within_limit (run cs)"
  using run_inv [of cs] by (simp add: db_inv_def)

subsection \<open>The branch of \<open>activate\<close>\<close>

lemma activate_by_branch:
  "activate s k em m ip clk =
     (case activate_branch s (strip k) (strip em) (strip m) of
        Refuse e \<Rightarrow> (Inl e, s)
      | Known l \<Rightarrow>
          finish_activate l (strip k) (clk 1) (reactivate (strip k) (strip m) ip (clk 0) s)
      | New l \<Rightarrow>
          finish_activate l (strip k) (clk 3) (new_activation (strip k) (strip m) ip clk s))"
  by (simp add: activate_def activate_branch_def Let_def split: option.split)

lemma activate_branch_found:
  assumes "activate_branch s key em mid = Known l \<or> activate_branch s key em mid = New l"
  shows "find_license s key = Some l" "status l = ''active''" "lower em = lower (email l)"
    "key \<noteq> []" "em \<noteq> []" "mid \<noteq> []"
  using assms
  by (auto simp: activate_branch_def split: if_splits option.splits)

lemma activate_branch_Known:
  assumes "key \<noteq> []" "em \<noteq> []" "mid \<noteq> []" "find_license s key = Some l"
    "status l = ''active''" "lower em = lower (email l)" "find_activation s key mid \<noteq> None"
  shows "activate_branch s key em mid = Known l"
  using assms by (simp add: activate_branch_def)

lemma activate_branch_New_row:
  "activate_branch s key em mid = New l \<Longrightarrow> find_activation s key mid = None"
  by (auto simp: activate_branch_def split: if_splits option.splits)

lemma activate_branch_Known_row:
  "activate_branch s key em mid = Known l \<Longrightarrow> find_activation s key mid \<noteq> None"
  by (auto simp: activate_branch_def split: if_splits option.splits)

section \<open>The activation limit\<close>

lemma limit_invariant:
  assumes "l \<in> set (licenses (run cs))"
  shows "current_activations l \<le> max \<lceil>max_activations l\<rceil> 0"
  using run_within_limit [of cs] assms by (simp add: within_limit_def)

lemma activate_at_limit:
  assumes "db_inv s" "find_license s (strip k) = Some l"
    and "max_activations l \<le> of_int (current_activations l)"
  shows "length (activations (snd (activate s k em m ip clk))) = length (activations s)"
    and "map current_activations (licenses (snd (activate s k em m ip clk)))
         = map current_activations (licenses s)"
    and "strip k \<noteq> [] \<Longrightarrow> strip em \<noteq> [] \<Longrightarrow> strip m \<noteq> [] \<Longrightarrow>
         lower (strip em) = lower (email l) \<Longrightarrow> find_activation s (strip k) (strip m) = None \<Longrightarrow>
         activate s k em m ip clk = (Inl (ActivationLimitReached (max_activations l)), s)"
proof -
  show "length (activations (snd (activate s k em m ip clk))) = length (activations s)"
  proof (cases rule: activate_cases [where s=s and k=k and em=em and m=m and ip=ip and clk=clk])
    case (refused e)
    then show ?thesis by simp
  next
    case (known l' a)
    show ?thesis unfolding known(7) by simp
  next
    case (new l')
    with assms(2,3) show ?thesis by simp
  qed
  show "map current_activations (licenses (snd (activate s k em m ip clk)))
         = map current_activations (licenses s)"
  proof (cases rule: activate_cases [where s=s and k=k and em=em and m=m and ip=ip and clk=clk])
    case (refused e)
    then show ?thesis by simp
  next
    case (known l' a)
    show ?thesis unfolding known(7) by (simp add: comp_def if_distrib cong: if_cong)
  next
    case (new l')
    with assms(2,3) show ?thesis by simp
  qed
  assume ne: "strip k \<noteq> []" "strip em \<noteq> []" "strip m \<noteq> []"
    and em: "lower (strip em) = lower (email l)"
    and no: "find_activation s (strip k) (strip m) = None"
  from assms(1) find_license_Some(1) [OF assms(2)] have "status l = ''active''"
    by (simp add: db_inv_def licenses_sound_def)
  with ne em no assms(2,3)
  show "activate s k em m ip clk = (Inl (ActivationLimitReached (max_activations l)), s)"
    by (simp add: activate_def Let_def)
qed

lemma only_activate_increments:
  assumes "\<forall>k e m i t. c \<noteq> Activate k e m i t" "i < length (licenses s)"
  shows "current_activations (licenses (step s c) ! i) \<le> current_activations (licenses s ! i)"
proof (cases c)
  case (Create em t mx rnd now)
  show ?thesis
  proof (cases rule: create_cases [where s=s and em=em and t=t and mx=mx and rnd=rnd and now=now])
    case collision
    with Create show ?thesis by simp
  next
    case inserted
    with Create assms(2) show ?thesis by (simp add: nth_append)
  qed
next
  case (Activate k e m i t)
  with assms(1) show ?thesis by simp
next
  case (Verify k m pick clk)
  then show ?thesis by simp
next
  case (Deactivate k m)
  show ?thesis
  proof (cases rule: deactivate_cases [where s=s and k=k and m=m])
    case (refused e)
    with Deactivate show ?thesis by simp
  next
    case applied
    with Deactivate assms(2) show ?thesis by simp
  qed
qed

text \<open>
  Claim C3, as the code has it.  After any sequence of calls the counter of a license is at
  most its limit rounded up to an integer, and at most 0 when the limit is negative; so it
  never exceeds a limit that is a non-negative integer.  When the counter of the license
  found for the key has reached the limit, \<open>activate\<close> inserts no activation and changes no
  counter, and for a machine without a row it fails with \<open>ActivationLimitReached\<close> and
  writes nothing.  No call other than \<open>activate\<close> raises the counter of a stored license.
\<close>

theorem activation_limit:
  "(\<forall>l \<in> set (licenses (run cs)).
      current_activations l \<le> max \<lceil>max_activations l\<rceil> 0
      \<and> (\<forall>n. 0 \<le> n \<and> max_activations l = of_int n \<longrightarrow> current_activations l \<le> n))
   \<and> (\<forall>l. find_license (run cs) (strip k) = Some l
            \<and> max_activations l \<le> of_int (current_activations l) \<longrightarrow>
          length (activations (snd (activate (run cs) k em m ip clk)))
            = length (activations (run cs))
          \<and> map current_activations (licenses (snd (activate (run cs) k em m ip clk)))
            = map current_activations (licenses (run cs))
          \<and> (strip k \<noteq> [] \<and> strip em \<noteq> [] \<and> strip m \<noteq> []
               \<and> lower (strip em) = lower (email l)
               \<and> find_activation (run cs) (strip k) (strip m) = None \<longrightarrow>
             activate (run cs) k em m ip clk
               = (Inl (ActivationLimitReached (max_activations l)), run cs)))
   \<and> (\<forall>c. (\<forall>k e m i t. c \<noteq> Activate k e m i t) \<longrightarrow>
          (\<forall>i < length (licenses (run cs)).
             current_activations (licenses (step (run cs) c) ! i)
               \<le> current_activations (licenses (run cs) ! i)))"
proof (intro conjI ballI allI impI)
  fix l assume "l \<in> set (licenses (run cs))"
  then show "current_activations l \<le> max \<lceil>max_activations l\<rceil> 0"
    by (rule limit_invariant)
next
  fix l n assume "l \<in> set (licenses (run cs))" "0 \<le> n \<and> max_activations l = of_int n"
  with limit_invariant [of l cs] show "current_activations l \<le> n"
    by simp
next
  fix l assume h: "find_license (run cs) (strip k) = Some l
            \<and> max_activations l \<le> of_int (current_activations l)"
  then have f: "find_license (run cs) (strip k) = Some l"
    and m: "max_activations l \<le> of_int (current_activations l)" by simp_all
  show "length (activations (snd (activate (run cs) k em m ip clk)))
            = length (activations (run cs))"
    using run_inv f m by (rule activate_at_limit(1))
  show "map current_activations (licenses (snd (activate (run cs) k em m ip clk)))
            = map current_activations (licenses (run cs))"
    using run_inv f m by (rule activate_at_limit(2))
  assume "strip k \<noteq> [] \<and> strip em \<noteq> [] \<and> strip m \<noteq> []
               \<and> lower (strip em) = lower (email l)
               \<and> find_activation (run cs) (strip k) (strip m) = None"
  then show "activate (run cs) k em m ip clk
               = (Inl (ActivationLimitReached (max_activations l)), run cs)"
    using activate_at_limit(3) [OF run_inv f m] by blast
next
  fix c i assume "\<forall>k e m i t. c \<noteq> Activate k e m i t" "i < length (licenses (run cs))"
  then show "current_activations (licenses (step (run cs) c) ! i)
               \<le> current_activations (licenses (run cs) ! i)"
    by (rule only_activate_increments)
qed

theorem activation_limit_witness:
  "activate (run [Create ''a@x.com'' ''pro_annual'' 1 zeros 5,
                  Activate K0 ''a@x.com'' ''M1'' None (ticks 10)])
       K0 ''a@x.com'' ''M2'' None (ticks 20)
     = (Inl (ActivationLimitReached 1),
        run [Create ''a@x.com'' ''pro_annual'' 1 zeros 5,
             Activate K0 ''a@x.com'' ''M1'' None (ticks 10)])"
proof -
  let ?cs = "[Create ''a@x.com'' ''pro_annual'' 1 zeros 5,
              Activate K0 ''a@x.com'' ''M1'' None (ticks 10)]"
  let ?l = "hd (licenses (run ?cs))"
  have f: "find_license (run ?cs) (strip K0) = Some ?l"
    by code_simp
  have m: "max_activations ?l \<le> of_int (current_activations ?l)"
    by code_simp
  have v: "max_activations ?l = 1"
    by code_simp
  have n: "strip K0 \<noteq> [] \<and> strip ''a@x.com'' \<noteq> [] \<and> strip ''M2'' \<noteq> []
           \<and> lower (strip ''a@x.com'') = lower (email ?l)
           \<and> find_activation (run ?cs) (strip K0) (strip ''M2'') = None"
    by code_simp
  from activation_limit [of ?cs K0 "''a@x.com''" "''M2''" None "ticks 20"] f m n
  have "activate (run ?cs) K0 ''a@x.com'' ''M2'' None (ticks 20)
          = (Inl (ActivationLimitReached (max_activations ?l)), run ?cs)"
    by blast
  then show ?thesis unfolding v .
qed

text \<open>
  \<open>create_license\<close> accepts any number as the limit.  With the limit -1 the counter of the
  new license, 0, is above it before any activation.  With the limit 1.5 the test
  \<open>current_activations >= max_activations\<close> lets two machines in, and the counter 2 is
  above the limit.
\<close>

theorem limit_exceeded_counterexample:
  "max_activations (hd (licenses (run [Create ''a@x.com'' ''pro_lifetime'' (- 1) zeros 5])))
     < of_int (current_activations
         (hd (licenses (run [Create ''a@x.com'' ''pro_lifetime'' (- 1) zeros 5]))))
   \<and> max_activations
        (hd (licenses (run [Create ''a@x.com'' ''pro_lifetime'' (3 / 2) zeros 5,
                            Activate K0 ''a@x.com'' ''M1'' None (ticks 10),
                            Activate K0 ''a@x.com'' ''M2'' None (ticks 20)]))) = 3 / 2
   \<and> current_activations
        (hd (licenses (run [Create ''a@x.com'' ''pro_lifetime'' (3 / 2) zeros 5,
                            Activate K0 ''a@x.com'' ''M1'' None (ticks 10),
                            Activate K0 ''a@x.com'' ''M2'' None (ticks 20)]))) = 2"
  by code_simp

section \<open>The verification log\<close>

lemma create_log [simp]:
  "verification_log (snd (create_license s em t mx rnd now)) = verification_log s"
  by (cases rule: create_cases [where s=s and em=em and t=t and mx=mx and rnd=rnd and now=now])
    simp_all

lemma deactivate_log [simp]:
  "verification_log (snd (deactivate s k m)) = verification_log s"
  by (cases rule: deactivate_cases [where s=s and k=k and m=m]) simp_all

lemma verify_log:
  "verification_log (snd (verify s k m pick clk)) =
     (if fst (verify s k m pick clk) = Inl InvalidKey
      then verification_log s @
             [\<lparr>log_license_key = strip k, log_machine_id = strip m, log_ip_address = None,
               log_timestamp = clk 0, log_result = ''failed'', log_message = ''Invalid key''\<rparr>]
      else if isl (fst (verify s k m pick clk)) then verification_log s
      else verification_log s @
             [\<lparr>log_license_key = strip k, log_machine_id = strip m, log_ip_address = None,
               log_timestamp = clk (clock_offset (the (find_license s (strip k))) + 1),
               log_result = ''success'',
               log_message = ''Verified '' @ tier (the (find_license s (strip k)))\<rparr>])"
proof (cases rule: verify_cases [where s=s and k=k and m=m and pick=pick and clk=clk])
  case invalid_key
  show ?thesis unfolding invalid_key(4) by simp
next
  case (refused e)
  then show ?thesis by simp
next
  case (valid l a)
  show ?thesis unfolding valid(8) using valid(3) by simp
qed

lemma step_log:
  "\<exists>new. verification_log (step s c) = verification_log s @ new \<and> length new \<le> 1"
proof (cases c)
  case (Verify k m pick clk)
  have "\<exists>new. verification_log (snd (verify s k m pick clk)) = verification_log s @ new
          \<and> length new \<le> 1"
    unfolding verify_log by simp
  with Verify show ?thesis by simp
qed simp_all

text \<open>
  Claim C8, as the code has it.  Every call of an operation leaves the rows of the log as
  they are and appends at most one.  \<open>verify\<close> appends exactly one row when the key matches
  no license (result "failed") and when the verification succeeds (result "success"); when it
  fails for another reason it appends none.
\<close>

theorem log_append_only:
  "(\<exists>new. verification_log (step s c) = verification_log s @ new \<and> length new \<le> 1)
   \<and> (fst (verify s k m pick clk) = Inl InvalidKey \<or> \<not> isl (fst (verify s k m pick clk)) \<longrightarrow>
        (\<exists>e. verification_log (snd (verify s k m pick clk)) = verification_log s @ [e]
            \<and> log_license_key e = strip k \<and> log_machine_id e = strip m
            \<and> log_result e = (if isl (fst (verify s k m pick clk)) then ''failed'' else ''success'')))
   \<and> (isl (fst (verify s k m pick clk)) \<and> fst (verify s k m pick clk) \<noteq> Inl InvalidKey \<longrightarrow>
        verification_log (snd (verify s k m pick clk)) = verification_log s)"
proof (intro conjI impI)
  show "\<exists>new. verification_log (step s c) = verification_log s @ new \<and> length new \<le> 1"
    by (rule step_log)
next
  assume "fst (verify s k m pick clk) = Inl InvalidKey \<or> \<not> isl (fst (verify s k m pick clk))"
  then show "\<exists>e. verification_log (snd (verify s k m pick clk)) = verification_log s @ [e]
            \<and> log_license_key e = strip k \<and> log_machine_id e = strip m
            \<and> log_result e = (if isl (fst (verify s k m pick clk)) then ''failed'' else ''success'')"
    unfolding verify_log by auto
next
  assume "isl (fst (verify s k m pick clk)) \<and> fst (verify s k m pick clk) \<noteq> Inl InvalidKey"
  then show "verification_log (snd (verify s k m pick clk)) = verification_log s"
    unfolding verify_log by simp
qed

theorem log_append_only_witness:
  "\<exists>e. verification_log (snd (verify init_db K0 ''M1'' 0 (ticks 1))) = [e]
       \<and> log_result e = ''failed''"
proof -
  have r: "fst (verify init_db K0 ''M1'' 0 (ticks 1)) = Inl InvalidKey"
    by code_simp
  have i: "verification_log init_db = []"
    by (simp add: init_db_def)
  from log_append_only [of init_db "Verify K0 ''M1'' 0 (ticks 1)" K0 "''M1''" 0 "ticks 1"] r
  have "\<exists>e. verification_log (snd (verify init_db K0 ''M1'' 0 (ticks 1)))
               = verification_log init_db @ [e]
            \<and> log_license_key e = strip K0 \<and> log_machine_id e = strip ''M1''
            \<and> log_result e = (if isl (Inl InvalidKey :: error + license_info) then ''failed'' else ''success'')"
    by simp
  then show ?thesis unfolding i by auto
qed

text \<open>
  A call of \<open>verify\<close> for a license that is not activated on the machine answers
  \<open>valid = False\<close> and writes no row.
\<close>

theorem unlogged_verify_counterexample:
  "fst (verify (run [Create ''a@x.com'' ''pro_lifetime'' 1 zeros 5]) K0 ''M1'' 0 (ticks 30))
     = Inl NotActivatedHere
   \<and> verification_log
        (snd (verify (run [Create ''a@x.com'' ''pro_lifetime'' 1 zeros 5]) K0 ''M1'' 0 (ticks 30)))
     = verification_log (run [Create ''a@x.com'' ''pro_lifetime'' 1 zeros 5])"
  by code_simp

section \<open>Deactivated activations\<close>

lemma join_rows_same_pair:
  assumes "UPPER (license_key l) = UPPER key"
  shows "join_rows s l mid = filter (same_pair key mid) (activations s)"
proof -
  have "(\<lambda>a. UPPER (license_key l) = UPPER (act_license_key a) \<and> machine_id a = mid)
        = same_pair key mid"
    using assms by (auto simp: same_pair_def fun_eq_iff)
  then show ?thesis by (simp add: join_rows_def)
qed

lemma join_activation_picks:
  "join_activation pick s l mid = Some a \<Longrightarrow> a \<in> set (join_rows s l mid)"
proof -
  assume h: "join_activation pick s l mid = Some a"
  show ?thesis
  proof (cases "join_rows s l mid")
    case Nil
    with h show ?thesis by (simp add: join_activation_def)
  next
    case (Cons r rs)
    have "pick mod length (r # rs) < length (r # rs)" by simp
    then have "(r # rs) ! (pick mod length (r # rs)) \<in> set (r # rs)"
      by (rule nth_mem)
    moreover from h Cons have "a = (r # rs) ! (pick mod length (r # rs))"
      by (simp add: join_activation_def)
    ultimately show ?thesis using Cons by simp
  qed
qed

lemma join_activation_exists:
  assumes "UPPER (license_key l) = UPPER key"
    and "\<exists>a \<in> set (activations s). same_pair key mid a"
  shows "\<exists>a. join_activation pick s l mid = Some a \<and> a \<in> set (activations s)
             \<and> same_pair key mid a"
proof -
  note rows = join_rows_same_pair [OF assms(1), of s mid]
  from assms(2) have "join_rows s l mid \<noteq> []"
    unfolding rows by (auto simp: filter_empty_conv)
  then obtain a where a: "join_activation pick s l mid = Some a"
    by (cases "join_rows s l mid") (simp_all add: join_activation_def)
  from join_activation_picks [OF a] have "a \<in> set (activations s)" "same_pair key mid a"
    unfolding rows by simp_all
  with a show ?thesis by blast
qed

text \<open>
  Claim C9.  In a database produced by the operations, let the key (not empty, like the
  machine id) match a license that has not expired, and let the machine have an activation
  row for that key, up to case, with status "deactivated".  Then \<open>verify\<close> answers
  \<open>valid = True\<close>: it asks whether a row exists, not whether it is active.
\<close>

theorem verify_ignores_deactivation:
  assumes "strip k \<noteq> []" "strip m \<noteq> []"
    and "find_license (run cs) (strip k) = Some l"
    and "\<exists>a \<in> set (activations (run cs)).
           same_pair (strip k) (strip m) a \<and> act_status a = ''deactivated''"
    and "\<not> (checks_expiry l \<and> has_expired l (clk 0))"
  shows "\<exists>info. fst (verify (run cs) k m pick clk) = Inr info
           \<and> info_tier info = tier l \<and> info_expires info = expires_at l"
proof -
  let ?s = "run cs"
  from find_license_Some [OF assms(3)] have l: "l \<in> set (licenses ?s)"
    "UPPER (license_key l) = UPPER (strip k)" by simp_all
  from run_licenses_sound [of cs] l(1) have st: "status l = ''active''"
    by (simp add: licenses_sound_def)
  from assms(4) have "\<exists>a \<in> set (activations ?s). same_pair (strip k) (strip m) a"
    by blast
  with l(2) obtain a where a: "join_activation pick ?s l (strip m) = Some a"
    "a \<in> set (activations ?s)"
    using join_activation_exists by blast
  from run_activations_sound [of cs] a(2) have "act_status a \<noteq> []"
    by (auto simp: activations_sound_def)
  with assms(1,2,3,5) st a(1) show ?thesis
    by (simp add: verify_def Let_def)
qed

theorem verify_ignores_deactivation_witness:
  "\<exists>info. fst (verify (run [Create ''a@x.com'' ''pro_annual'' 1 zeros 5,
                             Activate K0 ''a@x.com'' ''M1'' None (ticks 10),
                             Deactivate K0 ''M1''])
                  K0 ''M1'' 0 (ticks 30)) = Inr info"
proof -
  let ?cs = "[Create ''a@x.com'' ''pro_annual'' 1 zeros 5,
              Activate K0 ''a@x.com'' ''M1'' None (ticks 10),
              Deactivate K0 ''M1'']"
  let ?l = "hd (licenses (run ?cs))"
  have n: "strip K0 \<noteq> []" "strip ''M1'' \<noteq> []"
    by code_simp+
  have f: "find_license (run ?cs) (strip K0) = Some ?l"
    by code_simp
  have d: "\<exists>a \<in> set (activations (run ?cs)).
           same_pair (strip K0) (strip ''M1'') a \<and> act_status a = ''deactivated''"
    by code_simp
  have e: "\<not> (checks_expiry ?l \<and> has_expired ?l (ticks 30 0))"
    by code_simp
  from verify_ignores_deactivation [where clk="ticks 30" and pick=0, OF n f d e] show ?thesis
    by blast
qed

text \<open>
  \<open>deactivate\<close> looks for an active row of the machine with the key compared up to case.
  When the machine has rows for the key in that sense and all of them are deactivated, it
  fails with \<open>NoActiveActivation\<close> and returns the database as it was; and a \<open>deactivate\<close>
  that succeeded cannot be repeated at once.
\<close>

lemma deactivate_refused:
  assumes "strip k \<noteq> []" "strip m \<noteq> []"
  shows "((\<exists>a \<in> set (activations s). same_pair (strip k) (strip m) a)
          \<and> (\<forall>a \<in> set (activations s).
                same_pair (strip k) (strip m) a \<longrightarrow> act_status a = ''deactivated'') \<longrightarrow>
          deactivate s k m = (Inl NoActiveActivation, s))
         \<and> (fst (deactivate s k m) = Inr () \<longrightarrow>
              deactivate (snd (deactivate s k m)) k m
                = (Inl NoActiveActivation, snd (deactivate s k m)))"
proof (intro conjI impI)
  have none: "deactivate s' k m = (Inl NoActiveActivation, s')"
    if "\<forall>a \<in> set (activations s').
          same_pair (strip k) (strip m) a \<longrightarrow> act_status a = ''deactivated''" for s'
  proof -
    from that have "find (\<lambda>a. same_pair (strip k) (strip m) a \<and> act_status a = ''active'')
                      (activations s') = None"
      by (auto simp: find_None_iff)
    with assms show ?thesis
      by (simp add: deactivate_def Let_def)
  qed
  {
    assume "(\<exists>a \<in> set (activations s). same_pair (strip k) (strip m) a)
          \<and> (\<forall>a \<in> set (activations s).
                same_pair (strip k) (strip m) a \<longrightarrow> act_status a = ''deactivated'')"
    then show "deactivate s k m = (Inl NoActiveActivation, s)"
      using none by blast
  next
    assume ok: "fst (deactivate s k m) = Inr ()"
    show "deactivate (snd (deactivate s k m)) k m
                = (Inl NoActiveActivation, snd (deactivate s k m))"
    proof (cases rule: deactivate_cases [where s=s and k=k and m=m])
      case (refused e)
      with ok show ?thesis by simp
    next
      case applied
      have "\<forall>a \<in> set (activations (snd (deactivate s k m))).
              same_pair (strip k) (strip m) a \<longrightarrow> act_status a = ''deactivated''"
        unfolding applied(6) by (auto simp: same_pair_def)
      then show ?thesis by (rule none)
    qed
  }
qed

text \<open>
  Claim C10 says that once the activation row of a key and a machine is deactivated,
  \<open>deactivate\<close> with the same exact key fails with \<open>NoActiveActivation\<close> and changes neither
  the row nor the counter.  It fails on the code.  A license of limit 1 is activated on
  machine M1 under its stored key \<open>K0\<close> and deactivated: the row of \<open>K0\<close> and M1 is
  deactivated and the counter is 0.  Then M1 is activated with the key typed in lower case,
  \<open>k0\<close>: \<open>activate\<close> finds no row of exactly this key and machine, inserts a second, active
  row stored under \<open>k0\<close>, and its exact-match \<open>UPDATE\<close> leaves the counter at 0.  Now
  \<open>deactivate\<close> with \<open>K0\<close>, whose own row is deactivated, finds the active row of \<open>k0\<close>
  through \<open>UPPER\<close>, succeeds, and lowers the counter a second time, to -1.
\<close>

theorem double_decrement:
  "map act_license_key
       (activations (run [Create ''a@x.com'' ''pro_annual'' 1 zeros 5,
                          Activate K0 ''a@x.com'' ''M1'' None (ticks 10),
                          Deactivate K0 ''M1'',
                          Activate k0 ''a@x.com'' ''M1'' None (ticks 20)])) = [K0, k0]
   \<and> map machine_id
       (activations (run [Create ''a@x.com'' ''pro_annual'' 1 zeros 5,
                          Activate K0 ''a@x.com'' ''M1'' None (ticks 10),
                          Deactivate K0 ''M1'',
                          Activate k0 ''a@x.com'' ''M1'' None (ticks 20)])) = [''M1'', ''M1'']
   \<and> map act_status
       (activations (run [Create ''a@x.com'' ''pro_annual'' 1 zeros 5,
                          Activate K0 ''a@x.com'' ''M1'' None (ticks 10),
                          Deactivate K0 ''M1'',
                          Activate k0 ''a@x.com'' ''M1'' None (ticks 20)]))
     = [''deactivated'', ''active'']
   \<and> map current_activations
       (licenses (run [Create ''a@x.com'' ''pro_annual'' 1 zeros 5,
                       Activate K0 ''a@x.com'' ''M1'' None (ticks 10),
                       Deactivate K0 ''M1'',
                       Activate k0 ''a@x.com'' ''M1'' None (ticks 20)])) = [0]
   \<and> fst (deactivate (run [Create ''a@x.com'' ''pro_annual'' 1 zeros 5,
                            Activate K0 ''a@x.com'' ''M1'' None (ticks 10),
                            Deactivate K0 ''M1'',
                            Activate k0 ''a@x.com'' ''M1'' None (ticks 20)]) K0 ''M1'') = Inr ()
   \<and> map act_status
       (activations (snd (deactivate (run [Create ''a@x.com'' ''pro_annual'' 1 zeros 5,
                            Activate K0 ''a@x.com'' ''M1'' None (ticks 10),
                            Deactivate K0 ''M1'',
                            Activate k0 ''a@x.com'' ''M1'' None (ticks 20)]) K0 ''M1'')))
     = [''deactivated'', ''deactivated'']
   \<and> map current_activations
       (licenses (snd (deactivate (run [Create ''a@x.com'' ''pro_annual'' 1 zeros 5,
                            Activate K0 ''a@x.com'' ''M1'' None (ticks 10),
                            Deactivate K0 ''M1'',
                            Activate k0 ''a@x.com'' ''M1'' None (ticks 20)]) K0 ''M1'')))
     = [- 1]"
  by code_simp

section \<open>The counter when every key is given as stored\<close>

lemma length_filter_map_keep:
  assumes "\<And>x. P (f x) = P x"
  shows "length (filter P (map f xs)) = length (filter P xs)"
  by (induction xs) (simp_all add: assms)

lemma active_count_licenses [simp]:
  "active_count (s\<lparr>licenses := ls\<rparr>) l = active_count s l"
  by (simp add: active_count_def)

lemma active_count_cong:
  assumes "activations s' = map f (activations s)"
    and "\<And>a. act_status (f a) = act_status a \<and> act_license_key (f a) = act_license_key a"
    and "UPPER (license_key l') = UPPER (license_key l)"
  shows "active_count s' l' = active_count s l"
  unfolding active_count_def assms(1) assms(3)
  by (rule length_filter_map_keep) (simp add: assms(2))

text \<open>One row at most for a pair, so deactivating the pair removes one active row at most.\<close>

lemma distinct_filter_le_one:
  assumes "distinct (map f xs)"
  shows "length (filter (\<lambda>x. f x = v) xs) \<le> 1"
  using assms
proof (induction xs)
  case Nil
  then show ?case by simp
next
  case (Cons x xs)
  show ?case
  proof (cases "f x = v")
    case True
    from Cons.prems have "f x \<notin> f ` set xs" by simp
    have "\<forall>y \<in> set xs. f y \<noteq> v"
    proof
      fix y assume y: "y \<in> set xs"
      show "f y \<noteq> v"
      proof
        assume "f y = v"
        with True have "f x = f y" by simp
        then have "f x \<in> f ` set xs" using y by (rule image_eqI)
        with \<open>f x \<notin> f ` set xs\<close> show False by simp
      qed
    qed
    then have "filter (\<lambda>x. f x = v) xs = []" by (simp add: filter_empty_conv)
    with True show ?thesis by simp
  next
    case False
    with Cons show ?thesis by simp
  qed
qed

lemma length_filter_split:
  "length (filter P xs) = length (filter (\<lambda>x. P x \<and> Q x) xs) + length (filter (\<lambda>x. P x \<and> \<not> Q x) xs)"
  by (induction xs) simp_all

lemma length_filter_mono:
  "(\<And>x. P x \<Longrightarrow> Q x) \<Longrightarrow> length (filter P xs) \<le> length (filter Q xs)"
  by (induction xs) auto

lemma length_filter_in_mono:
  "(\<And>x. x \<in> set xs \<Longrightarrow> P x \<Longrightarrow> Q x) \<Longrightarrow> length (filter P xs) \<le> length (filter Q xs)"
  by (induction xs) auto

lemma length_filter_pos:
  "x \<in> set xs \<Longrightarrow> P x \<Longrightarrow> 0 < length (filter P xs)"
  by (induction xs) auto

lemma rows_canonical_map:
  assumes "rows_canonical s" "activations s' = map f (activations s)"
    and "\<And>a. act_license_key (f a) = act_license_key a \<and> machine_id (f a) = machine_id a"
  shows "rows_canonical s'"
proof -
  have "map (\<lambda>a. (act_license_key a, machine_id a)) (activations s')
        = map (\<lambda>a. (act_license_key a, machine_id a)) (activations s)"
    unfolding assms(2) by (simp add: assms(3))
  moreover have "\<forall>a \<in> set (activations s'). UPPER (act_license_key a) = act_license_key a"
    using assms(1) unfolding assms(2) by (auto simp: rows_canonical_def assms(3))
  ultimately show ?thesis using assms(1) by (simp add: rows_canonical_def)
qed

lemma counter_consistent_map:
  assumes "counter_consistent s" "licenses s' = map g (licenses s)"
    and "\<And>x. x \<in> set (licenses s) \<Longrightarrow>
           current_activations (g x) - int (active_count s' (g x))
             = current_activations x - int (active_count s x)"
  shows "counter_consistent s'"
  unfolding counter_consistent_def
proof
  fix l' assume "l' \<in> set (licenses s')"
  then obtain x where x: "x \<in> set (licenses s)" "l' = g x"
    using assms(2) by auto
  from assms(1) x(1) have "current_activations x = int (active_count s x)"
    by (simp add: counter_consistent_def)
  with assms(3) [OF x(1)] x(2) show "current_activations l' = int (active_count s' l')"
    by simp
qed

lemma create_consistent:
  assumes "db_inv s" "rows_canonical s" "counter_consistent s"
  shows "rows_canonical (snd (create_license s em t mx rnd now))
         \<and> counter_consistent (snd (create_license s em t mx rnd now))"
proof (cases rule: create_cases [where s=s and em=em and t=t and mx=mx and rnd=rnd and now=now])
  case collision
  with assms show ?thesis by simp
next
  case inserted
  let ?s' = "snd (create_license s em t mx rnd now)"
  let ?K = "generate_license_key t rnd"
  have rc: "rows_canonical ?s'"
    using assms(2) by (simp add: rows_canonical_def inserted(4))
  have same: "active_count ?s' l = active_count s l" for l
    by (simp add: active_count_def inserted(4))
  have "filter (\<lambda>a. act_status a = ''active'' \<and> UPPER (act_license_key a) = UPPER ?K)
          (activations s) = []"
  proof -
    have "UPPER (act_license_key a) \<noteq> UPPER ?K" if "a \<in> set (activations s)" for a
    proof
      assume "UPPER (act_license_key a) = UPPER ?K"
      then have "UPPER (act_license_key a) = ?K"
        by (simp add: generate_license_key_canonical)
      moreover from assms(1) that
      have "\<exists>l \<in> set (licenses s). license_key l = UPPER (act_license_key a)"
        by (simp add: db_inv_def activations_sound_def)
      ultimately have "?K \<in> license_key ` set (licenses s)" by force
      with inserted(1) show False by simp
    qed
    then show ?thesis by (simp add: filter_empty_conv)
  qed
  then have zero: "active_count s l = 0" if "license_key l = ?K" for l
    using that by (simp add: active_count_def)
  have "counter_consistent ?s'"
    using assms(3) by (simp add: counter_consistent_def inserted(3) same zero)
  with rc show ?thesis by simp
qed

lemma verify_consistent:
  assumes "rows_canonical s" "counter_consistent s"
  shows "rows_canonical (snd (verify s k m pick clk))
         \<and> counter_consistent (snd (verify s k m pick clk))"
proof -
  let ?s' = "snd (verify s k m pick clk)"
  from verify_activations [of s k m pick clk]
  obtain f where f: "activations ?s' = map f (activations s)"
    and keep: "\<And>a. act_status (f a) = act_status a \<and> act_license_key (f a) = act_license_key a
                  \<and> machine_id (f a) = machine_id a"
  proof (elim disjE exE)
    assume "activations ?s' = activations s"
    then have "activations ?s' = map (\<lambda>a. a) (activations s)" by simp
    then show ?thesis using that by blast
  next
    fix t assume a: "activations ?s' =
         map (\<lambda>a. if act_license_key a = strip k \<and> machine_id a = strip m
                  then a\<lparr>last_verified := Some t\<rparr> else a) (activations s)"
    show ?thesis by (rule that [OF a]) simp
  qed
  have "rows_canonical ?s'"
    using assms(1) f by (rule rows_canonical_map) (simp add: keep)
  moreover have "counter_consistent ?s'"
    using assms(2)
  proof (rule counter_consistent_map [where g="\<lambda>x. x"])
    show "licenses ?s' = map (\<lambda>x. x) (licenses s)" by simp
  next
    fix x
    have "active_count ?s' x = active_count s x"
      using f by (rule active_count_cong) (simp_all add: keep)
    then show "current_activations x - int (active_count ?s' x)
             = current_activations x - int (active_count s x)" by simp
  qed
  ultimately show ?thesis by simp
qed

lemma activate_consistent:
  assumes inv: "db_inv s" and rc: "rows_canonical s" and cc: "counter_consistent s"
    and ck: "UPPER (strip k) = strip k"
  shows "rows_canonical (snd (activate s k em m ip clk))
         \<and> counter_consistent (snd (activate s k em m ip clk))"
proof (cases "activate_branch s (strip k) (strip em) (strip m)")
  case (Refuse e)
  then have "snd (activate s k em m ip clk) = s"
    by (simp add: activate_by_branch)
  with rc cc show ?thesis by simp
next
  case (Known l)
  let ?s' = "snd (activate s k em m ip clk)"
  let ?c = "expires_at l = None \<and> billing_type l \<noteq> ''one-time''"
  let ?g = "\<lambda>r. if license_key r = strip k then touched False 0 ?c (clk 1 + days365) r else r"
  let ?f = "\<lambda>a. if act_license_key a = strip k \<and> machine_id a = strip m
                 then a\<lparr>last_verified := Some (clk 0), ip_address := ip\<rparr> else a"
  from Known have lic: "licenses ?s' = map ?g (licenses s)"
    by (auto simp: activate_by_branch map_idI touched_def)
  from Known have act: "activations ?s' = map ?f (activations s)"
    by (simp add: activate_by_branch)
  have "rows_canonical ?s'"
    using rc act by (rule rows_canonical_map) simp
  moreover have "counter_consistent ?s'"
    using cc lic
  proof (rule counter_consistent_map)
    fix x
    have "active_count ?s' (?g x) = active_count s x"
      using act by (rule active_count_cong) simp_all
    then show "current_activations (?g x) - int (active_count ?s' (?g x))
             = current_activations x - int (active_count s x)" by simp
  qed
  ultimately show ?thesis by simp
next
  case (New l)
  let ?s' = "snd (activate s k em m ip clk)"
  let ?c = "expires_at l = None \<and> billing_type l \<noteq> ''one-time''"
  let ?g = "\<lambda>r. if license_key r = strip k
                 then touched True (clk 2) ?c (clk 3 + days365) r else r"
  let ?new = "\<lparr>act_license_key = strip k, machine_id = strip m, ip_address = ip,
               act_activated_at = clk 0, last_verified = Some (clk 1), act_status = ''active''\<rparr>"
  from New have lic: "licenses ?s' = map ?g (licenses s)"
    by (auto simp: activate_by_branch touched_def)
  from New have act: "activations ?s' = activations s @ [?new]"
    by (simp add: activate_by_branch)
  from New have "find_activation s (strip k) (strip m) = None"
    by (rule activate_branch_New_row)
  then have fresh: "(strip k, strip m) \<notin> (\<lambda>a. (act_license_key a, machine_id a)) ` set (activations s)"
    by (auto simp: find_activation_def find_None_iff)
  have "rows_canonical ?s'"
    using rc ck fresh by (simp add: rows_canonical_def act)
  moreover have "counter_consistent ?s'"
    using cc lic
  proof (rule counter_consistent_map)
    fix x assume x: "x \<in> set (licenses s)"
    from inv x have "UPPER (license_key x) = license_key x"
      by (simp add: db_inv_def keys_canonical_def)
    with ck have eq: "(UPPER (strip k) = UPPER (license_key x)) = (license_key x = strip k)"
      by auto
    show "current_activations (?g x) - int (active_count ?s' (?g x))
             = current_activations x - int (active_count s x)"
    proof (cases "license_key x = strip k")
      case True
      with eq have "active_count ?s' x = active_count s x + 1"
        by (simp add: active_count_def act)
      moreover from True have "?g x = touched True (clk 2) ?c (clk 3 + days365) x"
        by simp
      moreover have "active_count ?s' (touched True (clk 2) ?c (clk 3 + days365) x)
                     = active_count ?s' x"
        by (simp add: active_count_def)
      ultimately show ?thesis by simp
    next
      case False
      with eq have "active_count ?s' x = active_count s x"
        by (simp add: active_count_def act)
      with False show ?thesis by simp
    qed
  qed
  ultimately show ?thesis by simp
qed

lemma deactivate_consistent:
  assumes inv: "db_inv s" and rc: "rows_canonical s" and cc: "counter_consistent s"
    and ck: "UPPER (strip k) = strip k"
  shows "rows_canonical (snd (deactivate s k m))
         \<and> counter_consistent (snd (deactivate s k m))"
proof (cases rule: deactivate_cases [where s=s and k=k and m=m])
  case (refused e)
  with rc cc show ?thesis by simp
next
  case applied
  let ?s' = "snd (deactivate s k m)"
  let ?Q = "same_pair (strip k) (strip m)"
  let ?f = "\<lambda>a. if ?Q a then a\<lparr>act_status := ''deactivated''\<rparr> else a"
  let ?g = "\<lambda>r. if license_key r = strip k
                 then r\<lparr>current_activations := current_activations r - 1\<rparr> else r"
  note lic = applied(5) and act = applied(6)
  have "rows_canonical ?s'"
    using rc act by (rule rows_canonical_map) simp
  moreover have "counter_consistent ?s'"
    using cc lic
  proof (rule counter_consistent_map)
    fix x assume x: "x \<in> set (licenses s)"
    let ?P = "\<lambda>a. act_status a = ''active'' \<and> UPPER (act_license_key a) = UPPER (license_key x)"
    from inv x have cx: "UPPER (license_key x) = license_key x"
      by (simp add: db_inv_def keys_canonical_def)
    have after: "active_count ?s' (?g x) = length (filter (\<lambda>a. ?P a \<and> \<not> ?Q a) (activations s))"
    proof -
      have "(?P \<circ> ?f) = (\<lambda>a. ?P a \<and> \<not> ?Q a)"
        by (auto simp: fun_eq_iff)
      moreover have "active_count ?s' (?g x) = length (filter (?P \<circ> ?f) (activations s))"
        unfolding active_count_def act by (simp add: filter_map)
      ultimately show ?thesis by simp
    qed
    have split: "active_count s x =
        length (filter (\<lambda>a. ?P a \<and> ?Q a) (activations s))
        + length (filter (\<lambda>a. ?P a \<and> \<not> ?Q a) (activations s))"
      unfolding active_count_def by (rule length_filter_split)
    show "current_activations (?g x) - int (active_count ?s' (?g x))
             = current_activations x - int (active_count s x)"
    proof (cases "license_key x = strip k")
      case False
      with cx ck have "UPPER (license_key x) \<noteq> UPPER (strip k)" by simp
      then have "filter (\<lambda>a. ?P a \<and> ?Q a) (activations s) = []"
        by (auto simp: filter_empty_conv same_pair_def)
      with split after False show ?thesis by simp
    next
      case True
      from applied(3) obtain a0 where a0: "a0 \<in> set (activations s)" "?Q a0"
        "act_status a0 = ''active''" by blast
      with True have "?P a0 \<and> ?Q a0" by (simp add: same_pair_def)
      with a0(1) have pos: "0 < length (filter (\<lambda>a. ?P a \<and> ?Q a) (activations s))"
        by (rule length_filter_pos)
      have "(act_license_key a, machine_id a) = (strip k, strip m)"
        if "a \<in> set (activations s)" "?P a \<and> ?Q a" for a
      proof -
        from rc that(1) have "UPPER (act_license_key a) = act_license_key a"
          by (simp add: rows_canonical_def)
        moreover from that(2) have "?Q a" by (rule conjunct2)
        then have "UPPER (act_license_key a) = UPPER (strip k)" "machine_id a = strip m"
          by (simp_all add: same_pair_def)
        ultimately show ?thesis using ck by simp
      qed
      then have "length (filter (\<lambda>a. ?P a \<and> ?Q a) (activations s))
                 \<le> length (filter (\<lambda>a. (act_license_key a, machine_id a) = (strip k, strip m))
                             (activations s))"
        by (intro length_filter_in_mono) blast
      also have "\<dots> \<le> 1"
        using rc by (intro distinct_filter_le_one) (simp add: rows_canonical_def)
      finally have "length (filter (\<lambda>a. ?P a \<and> ?Q a) (activations s)) = 1"
        using pos by linarith
      with split after True show ?thesis by simp
    qed
  qed
  ultimately show ?thesis by simp
qed

lemma step_consistent:
  assumes "db_inv s" "rows_canonical s" "counter_consistent s" "canonical_call c"
  shows "rows_canonical (step s c) \<and> counter_consistent (step s c)"
proof (cases c)
  case (Create em t mx rnd now)
  with create_consistent [OF assms(1,2,3)] show ?thesis by simp
next
  case (Activate k em m ip clk)
  with assms(4) have "UPPER (strip k) = strip k" by simp
  with activate_consistent [OF assms(1,2,3)] Activate show ?thesis by simp
next
  case (Verify k m pick clk)
  with verify_consistent [OF assms(2,3)] show ?thesis by simp
next
  case (Deactivate k m)
  with assms(4) have "UPPER (strip k) = strip k" by simp
  with deactivate_consistent [OF assms(1,2,3)] Deactivate show ?thesis by simp
qed

text \<open>
  When every call gives its key in upper case, as the keys are stored, the counter of every
  license is the number of its active activation rows after every call.
\<close>

lemma counter_consistent_stored_keys:
  assumes "\<forall>c \<in> set cs. canonical_call c"
  shows "rows_canonical (run cs) \<and> counter_consistent (run cs)"
  using assms
proof (induction cs rule: rev_induct)
  case Nil
  show ?case
    by (simp add: rows_canonical_def counter_consistent_def init_db_def)
next
  case (snoc c cs)
  then have "rows_canonical (run cs)" "counter_consistent (run cs)" "canonical_call c"
    by simp_all
  with step_consistent [OF run_inv] show ?case by simp
qed

section \<open>Keys that differ from the stored key in case\<close>

text \<open>
  Claim C1 says that after every call the counter of a license is the number of the active
  activation rows that refer to it, keys compared up to case.  That holds while every key is
  given as stored (\<open>counter_consistent_stored_keys\<close>) and fails otherwise: \<open>activate\<close> finds
  the license for a key typed in lower case and inserts an active row for it, but its
  \<open>UPDATE\<close> of the counter compares the key exactly and matches no license.  One active row
  then refers to the license and the counter is 0.
\<close>

theorem counter_drift:
  "current_activations
     (hd (licenses (run [Create ''a@x.com'' ''pro_lifetime'' 1 zeros 5,
                         Activate k0 ''a@x.com'' ''M1'' None (ticks 10)]))) = 0
   \<and> active_count (run [Create ''a@x.com'' ''pro_lifetime'' 1 zeros 5,
                        Activate k0 ''a@x.com'' ''M1'' None (ticks 10)])
        (hd (licenses (run [Create ''a@x.com'' ''pro_lifetime'' 1 zeros 5,
                            Activate k0 ''a@x.com'' ''M1'' None (ticks 10)]))) = 1"
  by code_simp

text \<open>
  Claim C2 says that a call with a case variant of the stored key returns the same result
  and makes the same change as the call with the stored key.  It fails on the code.  \<open>k0\<close>
  is \<open>K0\<close> up to case.  On the database holding the license
  \<open>K0\<close>, \<open>activate\<close> with \<open>K0\<close> raises the counter to 1 and with \<open>k0\<close> leaves it at 0.  Once
  the machine is activated under \<open>K0\<close> on a license of limit 1, \<open>activate\<close> for the same
  machine succeeds with \<open>K0\<close> and fails with \<open>k0\<close>; \<open>deactivate\<close> succeeds with both but
  lowers the counter with \<open>K0\<close> only; \<open>verify\<close> gives the same answer with both but sets
  \<open>last_verified\<close> with \<open>K0\<close> only.
\<close>

theorem case_variant_divergence:
  "UPPER k0 = UPPER K0
   \<and> map current_activations
       (licenses (snd (activate (run [Create ''a@x.com'' ''pro_lifetime'' 1 zeros 5])
                         K0 ''a@x.com'' ''M1'' None (ticks 10)))) = [1]
   \<and> map current_activations
       (licenses (snd (activate (run [Create ''a@x.com'' ''pro_lifetime'' 1 zeros 5])
                         k0 ''a@x.com'' ''M1'' None (ticks 10)))) = [0]
   \<and> \<not> isl (fst (activate (run [Create ''a@x.com'' ''pro_lifetime'' 1 zeros 5,
                                 Activate K0 ''a@x.com'' ''M1'' None (ticks 10)])
                     K0 ''a@x.com'' ''M1'' None (ticks 20)))
   \<and> fst (activate (run [Create ''a@x.com'' ''pro_lifetime'' 1 zeros 5,
                          Activate K0 ''a@x.com'' ''M1'' None (ticks 10)])
              k0 ''a@x.com'' ''M1'' None (ticks 20)) = Inl (ActivationLimitReached 1)
   \<and> fst (deactivate (run [Create ''a@x.com'' ''pro_lifetime'' 1 zeros 5,
                            Activate K0 ''a@x.com'' ''M1'' None (ticks 10)]) K0 ''M1'') = Inr ()
   \<and> fst (deactivate (run [Create ''a@x.com'' ''pro_lifetime'' 1 zeros 5,
                            Activate K0 ''a@x.com'' ''M1'' None (ticks 10)]) k0 ''M1'') = Inr ()
   \<and> map current_activations
       (licenses (snd (deactivate (run [Create ''a@x.com'' ''pro_lifetime'' 1 zeros 5,
                                        Activate K0 ''a@x.com'' ''M1'' None (ticks 10)])
                         K0 ''M1''))) = [0]
   \<and> map current_activations
       (licenses (snd (deactivate (run [Create ''a@x.com'' ''pro_lifetime'' 1 zeros 5,
                                        Activate K0 ''a@x.com'' ''M1'' None (ticks 10)])
                         k0 ''M1''))) = [1]
   \<and> fst (verify (run [Create ''a@x.com'' ''pro_lifetime'' 1 zeros 5,
                        Activate K0 ''a@x.com'' ''M1'' None (ticks 10)]) K0 ''M1'' 0 (ticks 30))
     = fst (verify (run [Create ''a@x.com'' ''pro_lifetime'' 1 zeros 5,
                        Activate K0 ''a@x.com'' ''M1'' None (ticks 10)]) k0 ''M1'' 0 (ticks 30))
   \<and> map last_verified
       (activations (snd (verify (run [Create ''a@x.com'' ''pro_lifetime'' 1 zeros 5,
                        Activate K0 ''a@x.com'' ''M1'' None (ticks 10)]) K0 ''M1'' 0 (ticks 30))))
     = [Some 30]
   \<and> map last_verified
       (activations (snd (verify (run [Create ''a@x.com'' ''pro_lifetime'' 1 zeros 5,
                        Activate K0 ''a@x.com'' ''M1'' None (ticks 10)]) k0 ''M1'' 0 (ticks 30))))
     = [Some 11]"
  by code_simp

section \<open>Repeated activation\<close>

text \<open>The database after a successful \<open>activate\<close>.\<close>

lemma activate_success:
  assumes "activate_branch s (strip k) (strip em) (strip m) = Known l
           \<or> activate_branch s (strip k) (strip em) (strip m) = New l"
  shows "\<not> isl (fst (activate s k em m ip clk))"
    and "\<exists>b t e. licenses (snd (activate s k em m ip clk)) =
           map (\<lambda>r. if license_key r = strip k
                    then touched b t (expires_at l = None \<and> billing_type l \<noteq> ''one-time'') e r
                    else r) (licenses s)"
    and "find_activation (snd (activate s k em m ip clk)) (strip k) (strip m) \<noteq> None"
proof -
  let ?c = "expires_at l = None \<and> billing_type l \<noteq> ''one-time''"
  from assms show "\<not> isl (fst (activate s k em m ip clk))"
    by (auto simp: activate_by_branch finish_activate_result)
  from assms show "\<exists>b t e. licenses (snd (activate s k em m ip clk)) =
           map (\<lambda>r. if license_key r = strip k then touched b t ?c e r else r) (licenses s)"
  proof
    assume "activate_branch s (strip k) (strip em) (strip m) = Known l"
    then have "licenses (snd (activate s k em m ip clk)) =
           map (\<lambda>r. if license_key r = strip k then touched False 0 ?c (clk 1 + days365) r else r)
             (licenses s)"
      by (auto simp: activate_by_branch map_idI touched_def)
    then show ?thesis by blast
  next
    assume "activate_branch s (strip k) (strip em) (strip m) = New l"
    then have "licenses (snd (activate s k em m ip clk)) =
           map (\<lambda>r. if license_key r = strip k then touched True (clk 2) ?c (clk 3 + days365) r else r)
             (licenses s)"
      by (auto simp: activate_by_branch touched_def)
    then show ?thesis by blast
  qed
  from assms show "find_activation (snd (activate s k em m ip clk)) (strip k) (strip m) \<noteq> None"
  proof
    assume kn: "activate_branch s (strip k) (strip em) (strip m) = Known l"
    let ?f = "\<lambda>a. if act_license_key a = strip k \<and> machine_id a = strip m
                  then a\<lparr>last_verified := Some (clk 0), ip_address := ip\<rparr> else a"
    from kn have "activations (snd (activate s k em m ip clk)) = map ?f (activations s)"
      by (simp add: activate_by_branch)
    then have "find_activation (snd (activate s k em m ip clk)) (strip k) (strip m)
               = map_option ?f (find_activation s (strip k) (strip m))"
      unfolding find_activation_def by (simp add: find_map_keep)
    with activate_branch_Known_row [OF kn] show ?thesis by simp
  next
    assume "activate_branch s (strip k) (strip em) (strip m) = New l"
    then have "\<exists>x \<in> set (activations (snd (activate s k em m ip clk))).
                 act_license_key x = strip k \<and> machine_id x = strip m"
      by (simp add: activate_by_branch)
    then show ?thesis
      by (auto simp: find_activation_def find_None_iff)
  qed
qed

lemma activate_second:
  assumes inv: "db_inv s"
    and br: "activate_branch s (strip k) (strip em) (strip m) = Known l
             \<or> activate_branch s (strip k) (strip em) (strip m) = New l"
  shows "\<exists>l1. activate_branch (snd (activate s k em m ip clk)) (strip k) (strip em) (strip m)
                = Known l1
              \<and> (license_key l1 = strip k \<and> billing_type l1 \<noteq> ''one-time''
                   \<longrightarrow> expires_at l1 \<noteq> None)"
proof -
  let ?s1 = "snd (activate s k em m ip clk)"
  let ?c = "expires_at l = None \<and> billing_type l \<noteq> ''one-time''"
  from activate_success(2) [OF br, of ip clk] obtain b t e where
    form: "licenses ?s1 =
           map (\<lambda>r. if license_key r = strip k then touched b t ?c e r else r) (licenses s)"
    by blast
  let ?g = "\<lambda>r. if license_key r = strip k then touched b t ?c e r else r"
  note f = activate_branch_found [OF br]
  have "find_license ?s1 (strip k) = map_option ?g (find_license s (strip k))"
    unfolding find_license_def form by (rule find_map_keep) simp
  with f(1) have f1: "find_license ?s1 (strip k) = Some (?g l)" by simp
  have "activate_branch ?s1 (strip k) (strip em) (strip m) = Known (?g l)"
    using f(4,5,6) f1
  proof (rule activate_branch_Known)
    show "status (?g l) = ''active''" using f(2) by simp
    show "lower (strip em) = lower (email (?g l))" using f(3) by simp
    show "find_activation ?s1 (strip k) (strip m) \<noteq> None"
      using br by (rule activate_success(3))
  qed
  moreover have "license_key (?g l) = strip k \<and> billing_type (?g l) \<noteq> ''one-time''
                   \<longrightarrow> expires_at (?g l) \<noteq> None"
    by auto
  ultimately show ?thesis by blast
qed

lemma activate_repeat:
  assumes inv: "db_inv s"
    and br: "activate_branch s (strip k) (strip em) (strip m) = Known l
             \<or> activate_branch s (strip k) (strip em) (strip m) = New l"
    and "s1 = snd (activate s k em m ip clk1)"
    and "s2 = snd (activate s1 k em m ip clk2)"
  shows "licenses s2 = licenses s1 \<and> verification_log s2 = verification_log s1
    \<and> \<not> isl (fst (activate s k em m ip clk1))
    \<and> \<not> isl (fst (activate s1 k em m ip clk2))
    \<and> activations s2 =
         map (\<lambda>a. if act_license_key a = strip k \<and> machine_id a = strip m
                  then a\<lparr>last_verified := Some (clk2 0), ip_address := ip\<rparr> else a)
           (activations s1)"
proof -
  have ok1: "\<not> isl (fst (activate s k em m ip clk1))"
    using br by (rule activate_success(1))
  have inv1: "db_inv s1"
    unfolding assms(3) using inv by (rule activate_inv)
  from activate_second [OF inv br, of ip clk1] obtain l1 where
    b1: "activate_branch s1 (strip k) (strip em) (strip m) = Known l1"
    and e1: "license_key l1 = strip k \<and> billing_type l1 \<noteq> ''one-time''
                 \<longrightarrow> expires_at l1 \<noteq> None"
    unfolding assms(3) [symmetric] by blast
  have f1: "find_license s1 (strip k) = Some l1"
    using b1 by (intro activate_branch_found(1) [of _ _ "strip em" "strip m"]) simp
  from inv1 have kc1: "keys_canonical s1" by (simp add: db_inv_def)
  from b1 have a2: "activate s1 k em m ip clk2 =
      finish_activate l1 (strip k) (clk2 1) (reactivate (strip k) (strip m) ip (clk2 0) s1)"
    by (simp add: activate_by_branch)
  have lic: "licenses s2 = licenses s1"
  proof (cases "expires_at l1 = None \<and> billing_type l1 \<noteq> ''one-time''")
    case False
    then show ?thesis unfolding assms(4) a2 by auto
  next
    case True
    have "license_key r \<noteq> strip k" if "r \<in> set (licenses s1)" for r
    proof
      assume "license_key r = strip k"
      with canonical_exact [OF kc1 f1 that] have "license_key l1 = strip k" by simp
      with e1 True show False by simp
    qed
    then have "map (\<lambda>r. if license_key r = strip k then f r else r) (licenses s1)
               = licenses s1" for f
      by (simp add: map_idI)
    with True show ?thesis unfolding assms(4) a2 by simp
  qed
  have "verification_log s2 = verification_log s1"
    unfolding assms(4) by simp
  moreover have "\<not> isl (fst (activate s1 k em m ip clk2))"
    unfolding a2 by (simp add: finish_activate_result)
  moreover have "activations s2 =
            map (\<lambda>a. if act_license_key a = strip k \<and> machine_id a = strip m
                     then a\<lparr>last_verified := Some (clk2 0), ip_address := ip\<rparr> else a)
              (activations s1)"
    unfolding assms(4) a2 by simp
  ultimately show ?thesis using lic ok1 by simp
qed

text \<open>
  Claim C4.  Start from a database produced by the operations and call \<open>activate\<close> twice in
  a row with the same arguments (the clock readings may differ).  The second call changes no
  license row, so \<open>current_activations\<close> stays as the first call left it, and it writes no
  log row.  When the first call is refused, the second is refused with the same error and
  nothing is written; when the first call succeeds, the second succeeds and rewrites only
  \<open>last_verified\<close> and \<open>ip_address\<close> of the activation rows of this key and machine.
\<close>

theorem activate_idempotent:
  assumes "s1 = snd (activate (run cs) k em m ip clk1)"
    and "s2 = snd (activate s1 k em m ip clk2)"
  shows "licenses s2 = licenses s1 \<and> verification_log s2 = verification_log s1
    \<and> (isl (fst (activate (run cs) k em m ip clk1)) \<longrightarrow>
          s1 = run cs \<and> s2 = s1
          \<and> fst (activate s1 k em m ip clk2) = fst (activate (run cs) k em m ip clk1))
    \<and> (\<not> isl (fst (activate (run cs) k em m ip clk1)) \<longrightarrow>
          \<not> isl (fst (activate s1 k em m ip clk2))
          \<and> activations s2 =
              map (\<lambda>a. if act_license_key a = strip k \<and> machine_id a = strip m
                       then a\<lparr>last_verified := Some (clk2 0), ip_address := ip\<rparr> else a)
                (activations s1))"
proof (cases "activate_branch (run cs) (strip k) (strip em) (strip m)")
  case (Refuse e)
  then have a1: "activate (run cs) k em m ip clk1 = (Inl e, run cs)"
    by (simp add: activate_by_branch)
  with assms(1) have s1: "s1 = run cs" by simp
  from Refuse have "activate (run cs) k em m ip clk2 = (Inl e, run cs)"
    by (simp add: activate_by_branch)
  with s1 assms(2) a1 show ?thesis by simp
next
  case (Known l)
  then have br: "activate_branch (run cs) (strip k) (strip em) (strip m) = Known l
             \<or> activate_branch (run cs) (strip k) (strip em) (strip m) = New l"
    by simp
  from activate_repeat [OF run_inv br assms] show ?thesis by simp
next
  case (New l)
  then have br: "activate_branch (run cs) (strip k) (strip em) (strip m) = Known l
             \<or> activate_branch (run cs) (strip k) (strip em) (strip m) = New l"
    by simp
  from activate_repeat [OF run_inv br assms] show ?thesis by simp
qed

theorem activate_idempotent_witness:
  "map current_activations
     (licenses (snd (activate
        (snd (activate (run [Create ''a@x.com'' ''pro_annual'' 2 zeros 5])
                K0 ''a@x.com'' ''M1'' None (ticks 10)))
        K0 ''a@x.com'' ''M1'' None (ticks 20)))) = [1]"
proof -
  let ?s1 = "snd (activate (run [Create ''a@x.com'' ''pro_annual'' 2 zeros 5])
                K0 ''a@x.com'' ''M1'' None (ticks 10))"
  have c: "map current_activations (licenses ?s1) = [1]"
    by code_simp
  from activate_idempotent [OF refl refl, of "[Create ''a@x.com'' ''pro_annual'' 2 zeros 5]"
      K0 "''a@x.com''" "''M1''" None "ticks 10" "ticks 20"]
  have "licenses (snd (activate ?s1 K0 ''a@x.com'' ''M1'' None (ticks 20))) = licenses ?s1"
    by (rule conjunct1)
  with c show ?thesis by simp
qed

section \<open>The round trip of a lifetime license\<close>

lemma pro_lifetime_derived:
  "type_of_tier ''pro_lifetime'' = ''pro''" "billing_of_tier ''pro_lifetime'' = ''one-time''"
  by code_simp+

lemma find_activation_same_pair:
  assumes "find_activation s key mid \<noteq> None"
  shows "\<exists>a \<in> set (activations s). same_pair key mid a"
proof -
  from assms obtain a where "a \<in> set (activations s)" "act_license_key a = key"
    "machine_id a = mid"
    by (auto simp: find_activation_def find_None_iff)
  then show ?thesis by (auto simp: same_pair_def)
qed

text \<open>
  The round trip for a machine that has no activation row for the key, in any spelling.  In
  a database produced by the operations, let the key match a license of tier "pro_lifetime"
  and let \<open>activate\<close> succeed for such a machine.  Then \<open>verify\<close> for the same key and
  machine, whichever row its join returns, answers \<open>valid = True\<close> with type "pro", billing
  type "one-time", no expiry, and a maintenance expiry 365 days after the first clock reading
  of the \<open>activate\<close> call, which is \<open>activated_at\<close> of the row that call inserted.
\<close>

lemma lifetime_round_trip_fresh:
  assumes "find_license (run cs) (strip k) = Some l" "tier l = ''pro_lifetime''"
    and "activate (run cs) k em m ip clk = (Inr info, s1)"
    and none: "\<forall>x \<in> set (activations (run cs)). \<not> same_pair (strip k) (strip m) x"
  shows "fst (verify s1 k m pick clk') =
           Inr \<lparr>info_type = ''pro'', info_tier = ''pro_lifetime'',
                info_billing_type = ''one-time'', info_expires = None,
                info_maintenance_expires = Some (clk 0 + days365)\<rparr>"
proof -
  let ?s = "run cs"
  let ?key = "strip k" and ?mid = "strip m"
  let ?new = "\<lparr>act_license_key = ?key, machine_id = ?mid, ip_address = ip,
              act_activated_at = clk 0, last_verified = Some (clk 1),
              act_status = ''active''\<rparr>"
  from assms(3) have s1: "s1 = snd (activate ?s k em m ip clk)"
    and ok: "\<not> isl (fst (activate ?s k em m ip clk))" by simp_all
  from ok obtain l0 where br: "activate_branch ?s ?key (strip em) ?mid = Known l0
             \<or> activate_branch ?s ?key (strip em) ?mid = New l0"
    by (cases "activate_branch ?s ?key (strip em) ?mid") (simp_all add: activate_by_branch)
  from activate_branch_found(1) [OF br] assms(1) have l0: "l0 = l" by simp
  note f = activate_branch_found [OF br]
  have inv1: "db_inv s1"
    unfolding s1 using run_inv by (rule activate_inv)
  \<comment> \<open>the license as \<open>verify\<close> finds it\<close>
  from activate_success(2) [OF br, of ip clk] obtain b t e where
    form: "licenses s1 =
           map (\<lambda>r. if license_key r = ?key
                    then touched b t (expires_at l0 = None \<and> billing_type l0 \<noteq> ''one-time'') e r
                    else r) (licenses ?s)"
    unfolding s1 by blast
  let ?g = "\<lambda>r. if license_key r = ?key
                 then touched b t (expires_at l0 = None \<and> billing_type l0 \<noteq> ''one-time'') e r
                 else r"
  have "find_license s1 ?key = map_option ?g (find_license ?s ?key)"
    unfolding find_license_def form by (rule find_map_keep) simp
  with assms(1) have f1: "find_license s1 ?key = Some (?g l)" by simp
  define l1 where "l1 = ?g l"
  have t1: "tier l1 = ''pro_lifetime''"
    using assms(2) by (simp add: l1_def)
  from f1 have f1': "find_license s1 ?key = Some l1" by (simp add: l1_def)
  from find_license_Some [OF f1'] have m1: "l1 \<in> set (licenses s1)"
    and u1: "UPPER (license_key l1) = UPPER ?key" by simp_all
  from inv1 m1 t1 have sound: "status l1 = ''active''" "license_type l1 = ''pro''"
    "billing_type l1 = ''one-time''" "expires_at l1 = None"
    by (simp_all add: db_inv_def licenses_sound_def pro_lifetime_derived)
  \<comment> \<open>the only row that the join has to return\<close>
  have "find_activation ?s ?key ?mid = None"
  proof (rule ccontr)
    assume "find_activation ?s ?key ?mid \<noteq> None"
    then have "\<exists>x \<in> set (activations ?s). same_pair ?key ?mid x"
      by (rule find_activation_same_pair)
    with none show False by blast
  qed
  with br have "activate_branch ?s ?key (strip em) ?mid = New l0"
    using activate_branch_Known_row by blast
  then have rows: "activations s1 = activations ?s @ [?new]"
    unfolding s1 by (simp add: activate_by_branch)
  from none have "filter (same_pair ?key ?mid) (activations ?s) = []"
    by (simp add: filter_empty_conv)
  then have "join_rows s1 l1 ?mid = [?new]"
    unfolding join_rows_same_pair [OF u1] rows by (simp add: same_pair_def)
  then have j: "join_activation pick s1 l1 ?mid = Some ?new"
    by (simp add: join_activation_def)
  have ne: "\<not> checks_expiry l1"
    by (simp add: checks_expiry_def sound(3))
  from f(4,6) f1' sound j ne t1 show ?thesis
    by (simp add: verify_def Let_def)
qed

text \<open>
  Claim C5 says that after a successful \<open>activate\<close> on a license of tier "pro_lifetime",
  \<open>verify\<close> for the same key and machine returns a maintenance expiry 365 days after
  \<open>activated_at\<close> of the activation.  It fails on the code.  A license of limit 2 is
  activated on machine M1 under its stored key \<open>K0\<close> at time 10.  Then \<open>activate\<close> is called
  for M1 with the key typed in lower case, \<open>k0\<close>, at time 20: it finds the license, finds
  no row of exactly this key and machine, succeeds, and inserts a second row, stored under
  \<open>k0\<close> with \<open>activated_at\<close> 20 (its own answer computes the maintenance expiry from a
  later reading of the clock, 23).
  The join of \<open>verify\<close> for \<open>k0\<close> and M1 matches both rows, and the row of \<open>K0\<close> comes first
  (first inserted, and first in the order of the keys): \<open>verify\<close> answers with the
  maintenance expiry 10 + 365 days, which is 31536000000010 microseconds, not 365 days after
  the activation that has just succeeded.
\<close>

theorem maintenance_of_other_row:
  "fst (activate (run [Create ''a@x.com'' ''pro_lifetime'' 2 zeros 5,
                       Activate K0 ''a@x.com'' ''M1'' None (ticks 10)])
          k0 ''a@x.com'' ''M1'' None (ticks 20))
     = Inr \<lparr>info_type = ''pro'', info_tier = ''pro_lifetime'',
            info_billing_type = ''one-time'', info_expires = None,
            info_maintenance_expires = Some 31536000000023\<rparr>
   \<and> map act_license_key
       (activations (run [Create ''a@x.com'' ''pro_lifetime'' 2 zeros 5,
                          Activate K0 ''a@x.com'' ''M1'' None (ticks 10),
                          Activate k0 ''a@x.com'' ''M1'' None (ticks 20)])) = [K0, k0]
   \<and> map machine_id
       (activations (run [Create ''a@x.com'' ''pro_lifetime'' 2 zeros 5,
                          Activate K0 ''a@x.com'' ''M1'' None (ticks 10),
                          Activate k0 ''a@x.com'' ''M1'' None (ticks 20)])) = [''M1'', ''M1'']
   \<and> map act_activated_at
       (activations (run [Create ''a@x.com'' ''pro_lifetime'' 2 zeros 5,
                          Activate K0 ''a@x.com'' ''M1'' None (ticks 10),
                          Activate k0 ''a@x.com'' ''M1'' None (ticks 20)])) = [10, 20]
   \<and> fst (verify (run [Create ''a@x.com'' ''pro_lifetime'' 2 zeros 5,
                        Activate K0 ''a@x.com'' ''M1'' None (ticks 10),
                        Activate k0 ''a@x.com'' ''M1'' None (ticks 20)])
            k0 ''M1'' 0 (ticks 30))
     = Inr \<lparr>info_type = ''pro'', info_tier = ''pro_lifetime'',
            info_billing_type = ''one-time'', info_expires = None,
            info_maintenance_expires = Some 31536000000010\<rparr>"
  by code_simp

end
